theory Spec2Isabelle
  imports Complex_Main "HOL-Library.Word" "HOL-Library.Sublist" "HOL-Library.Log_Nat"
begin

section \<open>The pagination engine of OpenWriter (src/components/PagedView.tsx)\<close>

text \<open>
  The paged view splits the editor's HTML into top-level blocks (\<open>parseBlocks\<close>),
  measures each block on a hidden scratch element (\<open>measureBlock\<close>) and packs the
  blocks greedily into pages of a fixed body height (\<open>paginate\<close>); a block whose
  markup mentions a page-break marker (\<open>isHardPageBreak\<close>) closes the current page.

  What the browser contributes (the HTML parser, computed styles, layout boxes) is a
  parameter of the model, the record \<open>dom\<close>. JavaScript numbers are binary64
  floating-point numbers: every addition rounds to the nearest double.
\<close>

subsection \<open>JavaScript numbers\<close>

text \<open>
  A number is represented by the real value of a finite double, and an arithmetic
  operation returns the exact result rounded to the nearest double, ties to the even
  significand (\<open>round64\<close>). A double is an integer significand below \<open>2 ^ 53\<close> in
  magnitude times a power of two, with exponents \<open>-1074\<close> and above, so that the unit
  in the last place of \<open>x\<close> is \<open>2\<close> to the power \<open>quantum x\<close>. Heights and margins
  are finite, and their sums stay far below \<open>2 ^ 1024\<close>: overflow to infinity is left out,
  the two zeros are one value, and \<open>NaN\<close> is \<open>None\<close> where the source tests for it.
\<close>

definition roundEven :: "real \<Rightarrow> int" where
  "roundEven y =
     (let f = \<lfloor>y\<rfloor>; d = y - of_int f
      in if d < 1 / 2 then f else if 1 / 2 < d then f + 1 else if even f then f else f + 1)"

text \<open>The integer part of the binary logarithm of a positive real.\<close>

definition ilog2 :: "real \<Rightarrow> int" where
  "ilog2 a = (if 1 \<le> a then bitlen \<lfloor>a\<rfloor> - 1 else - bitlen (\<lceil>1 / a\<rceil> - 1))"

definition quantum :: "real \<Rightarrow> int" where
  "quantum x = max (ilog2 \<bar>x\<bar> - 52) (- 1074)"

definition round64 :: "real \<Rightarrow> real" where
  "round64 x =
     (if x = 0 then 0
      else of_int (roundEven (x / 2 powi quantum x)) * 2 powi quantum x)"

text \<open>The operators \<^verbatim>\<open>+\<close>, \<^verbatim>\<open>-\<close> and \<^verbatim>\<open>*\<close> on numbers.\<close>

definition fadd :: "real \<Rightarrow> real \<Rightarrow> real" where
  "fadd x y = round64 (x + y)"

definition fsub :: "real \<Rightarrow> real \<Rightarrow> real" where
  "fsub x y = round64 (x - y)"

definition fmul :: "real \<Rightarrow> real \<Rightarrow> real" where
  "fmul x y = round64 (x * y)"

subsection \<open>JavaScript strings\<close>

text \<open>A JavaScript string is a sequence of UTF-16 code units.\<close>

type_synonym jsstring = "16 word list"

definition js :: "string \<Rightarrow> jsstring" where
  "js s = map (\<lambda>c. of_nat (of_char c)) s"

text \<open>\<^verbatim>\<open>s.includes(sub)\<close>: \<open>sub\<close> occurs in \<open>s\<close> as a contiguous run of code units.\<close>

fun includes_js :: "jsstring \<Rightarrow> jsstring \<Rightarrow> bool" where
  "includes_js [] sub = (sub = [])"
| "includes_js (c # cs) sub = (prefix sub (c # cs) \<or> includes_js cs sub)"

text \<open>
  \<^verbatim>\<open>s.trim()\<close> strips the code units of ECMAScript's WhiteSpace and LineTerminator
  productions from both ends.
\<close>

definition isWhiteSpace :: "16 word \<Rightarrow> bool" where
  "isWhiteSpace c \<longleftrightarrow>
     c \<in> {0x0009, 0x000A, 0x000B, 0x000C, 0x000D, 0x0020, 0x00A0, 0x1680,
          0x2028, 0x2029, 0x202F, 0x205F, 0x3000, 0xFEFF}
     \<or> (0x2000 \<le> c \<and> c \<le> 0x200A)"

definition trim :: "jsstring \<Rightarrow> jsstring" where
  "trim s = rev (dropWhile isWhiteSpace (rev (dropWhile isWhiteSpace s)))"

text \<open>\<^verbatim>\<open>String(n)\<close> for a non-negative integer: its decimal digits.\<close>

function numberToString :: "nat \<Rightarrow> jsstring" where
  "numberToString n =
     (if n < 10 then [of_nat (48 + n)]
      else numberToString (n div 10) @ [of_nat (48 + n mod 10)])"
  by pat_completeness auto
termination
  by (relation "measure (\<lambda>n. n)") auto

declare numberToString.simps [simp del]

subsection \<open>The browser\<close>

text \<open>
  \<open>parseChildren html\<close> are the element children of a \<^verbatim>\<open>div\<close> whose
  \<^verbatim>\<open>innerHTML\<close> has been set to \<open>html\<close>; \<open>outerHTML\<close> serialises one of them.
  \<open>marginTop\<close> and \<open>marginBottom\<close> are the lengths that \<^verbatim>\<open>parseFloat\<close> reads from the
  computed margins of an element laid out in the measurement container (\<open>None\<close> is
  \<^verbatim>\<open>NaN\<close>), and \<open>rectHeight\<close> is the height of its bounding client rectangle. The
  script receives each of these as the nearest double.
\<close>

record 'e dom =
  parseChildren :: "jsstring \<Rightarrow> 'e list"
  outerHTML :: "'e \<Rightarrow> jsstring"
  marginTop :: "'e \<Rightarrow> real option"
  marginBottom :: "'e \<Rightarrow> real option"
  rectHeight :: "'e \<Rightarrow> real"

text \<open>\<^verbatim>\<open>x || 0\<close> on a number: \<^verbatim>\<open>NaN\<close> and zero are falsy.\<close>

definition orZero :: "real option \<Rightarrow> real" where
  "orZero x = (case x of None \<Rightarrow> 0 | Some v \<Rightarrow> if v = 0 then 0 else v)"

subsection \<open>Page geometry and data\<close>

definition PAGE_WIDTH :: real where "PAGE_WIDTH = 816"
definition PAGE_HEIGHT :: real where "PAGE_HEIGHT = 1056"
definition PAGE_MARGIN :: real where "PAGE_MARGIN = 96"
definition PAGE_BODY_HEIGHT :: real where
  "PAGE_BODY_HEIGHT = fsub PAGE_HEIGHT (fmul PAGE_MARGIN 2)"

record PageData =
  blocks :: "jsstring list"

subsection \<open>parseBlocks and isHardPageBreak\<close>

definition parseBlocks :: "'e dom \<Rightarrow> jsstring \<Rightarrow> jsstring list" where
  "parseBlocks env html =
     (if html = [] \<or> trim html = [] then []
      else
        let children = parseChildren env html;
            blocks = map (\<lambda>i. outerHTML env (children ! i)) [0..<length children]
        in if length blocks > 0 then blocks
           else (if trim html \<noteq> [] then [js ''<p>'' @ html @ js ''</p>''] else []))"

definition isHardPageBreak :: "jsstring \<Rightarrow> bool" where
  "isHardPageBreak blockHtml \<longleftrightarrow>
     includes_js blockHtml (js ''page-break'') \<or>
     includes_js blockHtml (js ''ck-page-break'') \<or>
     includes_js blockHtml (js ''pagebreak'')"

subsection \<open>measureBlock\<close>

text \<open>
  The scratch element behind \<^verbatim>\<open>measureRef\<close> is the only mutable state the measurer
  touches. It is \<open>None\<close> while \<^verbatim>\<open>measureRef.current\<close> is null, and otherwise
  holds the element's current \<^verbatim>\<open>innerHTML\<close>. The measurer returns the height and
  the scratch element as it leaves it.
\<close>

definition measureBlock :: "'e dom \<Rightarrow> jsstring option \<Rightarrow> jsstring \<Rightarrow> real \<times> jsstring option" where
  "measureBlock env measureRef blockHtml =
     (case measureRef of
        None \<Rightarrow> (40, None)
      | Some _ \<Rightarrow>
          let innerHTML = blockHtml
          in (case parseChildren env innerHTML of
                [] \<Rightarrow> (40, Some [])
              | element # _ \<Rightarrow>
                  let mTop = orZero (map_option round64 (marginTop env element));
                      mBottom = orZero (map_option round64 (marginBottom env element));
                      height = round64 (rectHeight env element)
                  in (fadd (fadd height mTop) mBottom, Some [])))"

subsection \<open>paginate\<close>

text \<open>
  The state of the loop: the closed pages, the page being filled, its accumulated
  height, and the scratch element. One step is the body of the \<^verbatim>\<open>for\<close> loop. The
  capacity is the constant \<open>PAGE_BODY_HEIGHT\<close> in the source; the loop takes it as
  an argument \<open>C\<close>, and \<open>paginate\<close> passes the constant.
\<close>

type_synonym paginate_state = "PageData list \<times> PageData \<times> real \<times> jsstring option"

fun paginate_step :: "'e dom \<Rightarrow> real \<Rightarrow> paginate_state \<Rightarrow> jsstring \<Rightarrow> paginate_state" where
  "paginate_step env C (result, currentPage, currentHeight, measureRef) block =
     (if isHardPageBreak block then
        (result @ [currentPage], \<lparr>blocks = []\<rparr>, 0, measureRef)
      else
        let (blockHeight, measureRef') = measureBlock env measureRef block;
            (result', currentPage', currentHeight') =
              (if fadd currentHeight blockHeight > C \<and> length (blocks currentPage) > 0
               then (result @ [currentPage], \<lparr>blocks = []\<rparr>, 0)
               else (result, currentPage, currentHeight))
        in (result',
            currentPage'\<lparr>blocks := blocks currentPage' @ [block]\<rparr>,
            fadd currentHeight' blockHeight,
            measureRef'))"

fun paginate_loop :: "'e dom \<Rightarrow> real \<Rightarrow> jsstring list \<Rightarrow> paginate_state \<Rightarrow> paginate_state" where
  "paginate_loop env C [] st = st"
| "paginate_loop env C (block # rest) st = paginate_loop env C rest (paginate_step env C st block)"

definition paginateWith ::
  "'e dom \<Rightarrow> real \<Rightarrow> jsstring list \<Rightarrow> jsstring option \<Rightarrow> PageData list \<times> jsstring option" where
  "paginateWith env C blocks0 measureRef =
     (if length blocks0 = 0 then ([\<lparr>blocks = []\<rparr>], measureRef)
      else
        case paginate_loop env C blocks0 ([], \<lparr>blocks = []\<rparr>, 0, measureRef) of
          (result, currentPage, currentHeight, measureRef') \<Rightarrow>
            (if length (blocks currentPage) > 0 \<or> length result = 0
             then (result @ [currentPage], measureRef')
             else (result, measureRef')))"

definition paginate :: "'e dom \<Rightarrow> jsstring list \<Rightarrow> jsstring option \<Rightarrow> PageData list \<times> jsstring option" where
  "paginate env blocks0 measureRef = paginateWith env PAGE_BODY_HEIGHT blocks0 measureRef"

subsection \<open>The component: re-pagination and page footers\<close>

text \<open>The effect run on a content change, and the footer text of each rendered page.\<close>

definition repaginate :: "'e dom \<Rightarrow> jsstring \<Rightarrow> jsstring option \<Rightarrow> PageData list \<times> jsstring option" where
  "repaginate env content measureRef = paginate env (parseBlocks env content) measureRef"

definition pageFooter :: "PageData list \<Rightarrow> nat \<Rightarrow> jsstring" where
  "pageFooter pages pageIndex =
     js ''Page '' @ numberToString (pageIndex + 1) @ js '' of '' @ numberToString (length pages)"

definition pageFooters :: "PageData list \<Rightarrow> jsstring list" where
  "pageFooters pages = map (pageFooter pages) [0..<length pages]"

subsection \<open>Sample browsers\<close>

text \<open>
  Two concrete browsers for evaluating the functions: \<open>bare_dom\<close> finds no element
  in any fragment (as for bare text), and \<open>fixed_dom h mt mb\<close> finds exactly one
  element in every fragment, with box height \<open>h\<close> and parsed margins \<open>mt\<close>, \<open>mb\<close>.
\<close>

definition bare_dom :: "unit dom" where
  "bare_dom = \<lparr>parseChildren = (\<lambda>html. []), outerHTML = (\<lambda>e. []),
     marginTop = (\<lambda>e. None), marginBottom = (\<lambda>e. None), rectHeight = (\<lambda>e. 0)\<rparr>"

definition fixed_dom :: "real \<Rightarrow> real option \<Rightarrow> real option \<Rightarrow> unit dom" where
  "fixed_dom h mt mb = \<lparr>parseChildren = (\<lambda>html. [()]), outerHTML = (\<lambda>e. []),
     marginTop = (\<lambda>e. mt), marginBottom = (\<lambda>e. mb), rectHeight = (\<lambda>e. h)\<rparr>"

subsection \<open>Notions used in the properties\<close>

text \<open>The scratch element after a measurement: still absent, or emptied.\<close>

definition cleared :: "jsstring option \<Rightarrow> jsstring option" where
  "cleared r = map_option (\<lambda>_. []) r"

text \<open>The height \<open>measureBlock\<close> reports for a block.\<close>

definition measured :: "'e dom \<Rightarrow> jsstring option \<Rightarrow> jsstring \<Rightarrow> real" where
  "measured env r b = fst (measureBlock env r b)"

text \<open>The blocks of a page list in page order, and those held by a loop state.\<close>

definition pagesContent :: "PageData list \<Rightarrow> jsstring list" where
  "pagesContent ps = concat (map blocks ps)"

definition stateContent :: "paginate_state \<Rightarrow> jsstring list" where
  "stateContent st = pagesContent (fst st) @ blocks (fst (snd st))"

text \<open>
  The exact sum of the measured heights of a page's blocks, and the sum as the script
  accumulates it: from zero, block by block, each addition rounded.
\<close>

definition pageHeight :: "'e dom \<Rightarrow> jsstring option \<Rightarrow> PageData \<Rightarrow> real" where
  "pageHeight env r p = sum_list (map (measured env r) (blocks p))"

definition accumulatedHeight :: "'e dom \<Rightarrow> jsstring option \<Rightarrow> PageData \<Rightarrow> real" where
  "accumulatedHeight env r p = foldl fadd 0 (map (measured env r) (blocks p))"

text \<open>
  The capacity condition: the accumulated height fits, or the page holds exactly one
  block and that block is taller than the capacity.
\<close>

definition pageWithinCapacity :: "'e dom \<Rightarrow> jsstring option \<Rightarrow> real \<Rightarrow> PageData \<Rightarrow> bool" where
  "pageWithinCapacity env r C p \<longleftrightarrow>
     accumulatedHeight env r p \<le> C \<or>
     (length (blocks p) = 1 \<and> measured env r (hd (blocks p)) > C)"

definition capacityInv :: "'e dom \<Rightarrow> jsstring option \<Rightarrow> real \<Rightarrow> paginate_state \<Rightarrow> bool" where
  "capacityInv env r C st \<longleftrightarrow>
     (case st of (res, cur, h, r') \<Rightarrow>
        (\<forall>p \<in> set res. pageWithinCapacity env r C p) \<and>
        pageWithinCapacity env r C cur \<and>
        h = accumulatedHeight env r cur \<and>
        (r' = r \<or> r' = cleared r))"

text \<open>A loop state with its scratch element emptied.\<close>

definition clearState :: "paginate_state \<Rightarrow> paginate_state" where
  "clearState st = (case st of (res, cur, h, r) \<Rightarrow> (res, cur, h, cleared r))"

text \<open>
  The index of the page that holds position \<open>j\<close> of the concatenated page contents
  (\<open>None\<close> when there is no such position).
\<close>

fun pageIndexOf :: "PageData list \<Rightarrow> nat \<Rightarrow> nat option" where
  "pageIndexOf [] j = None"
| "pageIndexOf (p # ps) j =
     (if j < length (blocks p) then Some 0
      else map_option Suc (pageIndexOf ps (j - length (blocks p))))"

text \<open>
  The loop invariant for blocks of one height \<open>hh\<close>: closed pages hold
  \<open>\<lfloor>C / hh\<rfloor>\<close> blocks, the current page at most that many.
\<close>

definition uniformInv :: "'e dom \<Rightarrow> jsstring option \<Rightarrow> real \<Rightarrow> real \<Rightarrow> paginate_state \<Rightarrow> bool" where
  "uniformInv env r C hh st \<longleftrightarrow>
     (case st of (res, cur, h, r') \<Rightarrow>
        (\<forall>p \<in> set res. length (blocks p) = nat \<lfloor>C / hh\<rfloor>) \<and>
        length (blocks cur) \<le> nat \<lfloor>C / hh\<rfloor> \<and>
        h = of_nat (length (blocks cur)) * hh \<and>
        (r' = r \<or> r' = cleared r))"

section \<open>Properties\<close>

subsection \<open>Rounding to the nearest double\<close>

lemma roundEven_of_int: "roundEven (of_int z) = z"
  by (simp add: roundEven_def)

lemma roundEven_ge: "of_int a \<le> y \<Longrightarrow> a \<le> roundEven y"
proof -
  assume "of_int a \<le> y"
  then have "a \<le> \<lfloor>y\<rfloor>"
    by (simp add: le_floor_iff)
  moreover have "\<lfloor>y\<rfloor> \<le> roundEven y"
    by (simp add: roundEven_def Let_def)
  ultimately show ?thesis by simp
qed

lemma roundEven_le: "y \<le> of_int b \<Longrightarrow> roundEven y \<le> b"
proof -
  assume le: "y \<le> of_int b"
  have fl: "\<lfloor>y\<rfloor> \<le> b"
    using le by (simp add: floor_le_iff)
  show ?thesis
  proof (cases "y - of_int \<lfloor>y\<rfloor> < 1 / 2")
    case True
    then show ?thesis using fl by (simp add: roundEven_def Let_def)
  next
    case False
    then have "of_int \<lfloor>y\<rfloor> < y" by linarith
    then have "of_int \<lfloor>y\<rfloor> < (of_int b :: real)" using le by linarith
    then have "\<lfloor>y\<rfloor> < b" by simp
    then show ?thesis by (auto simp add: roundEven_def Let_def)
  qed
qed

lemma ilog2_bounds:
  assumes "0 < a"
  shows "2 powi (ilog2 a) \<le> a \<and> a < 2 powi (ilog2 a + 1)"
proof (cases "1 \<le> a")
  case True
  let ?n = "\<lfloor>a\<rfloor>"
  have n: "0 < ?n" using True by simp
  have b: "2 ^ nat (bitlen ?n - 1) \<le> ?n \<and> ?n < 2 ^ nat (bitlen ?n)"
    using bitlen_bounds [OF n] .
  have ge1: "1 \<le> bitlen ?n"
    using n bitlen_eq_zero_iff [of ?n] bitlen_nonneg [of ?n] by linarith
  have lo: "(2::real) powi (bitlen ?n - 1) \<le> a"
  proof -
    have "(2::real) powi (bitlen ?n - 1) = of_int (2 ^ nat (bitlen ?n - 1))"
      using ge1 by (simp add: power_int_def)
    also have "\<dots> \<le> of_int ?n"
      using b by (simp only: of_int_le_iff)
    also have "\<dots> \<le> a" by simp
    finally show ?thesis .
  qed
  have hi: "a < (2::real) powi (bitlen ?n)"
  proof -
    have "?n + 1 \<le> 2 ^ nat (bitlen ?n)" using b by simp
    then have "(of_int (?n + 1) :: real) \<le> of_int (2 ^ nat (bitlen ?n))"
      by (simp only: of_int_le_iff)
    moreover have "a < of_int (?n + 1)" by simp
    ultimately have "a < of_int (2 ^ nat (bitlen ?n))" by linarith
    then show ?thesis using ge1 by (simp add: power_int_def)
  qed
  show ?thesis
    using lo hi True by (simp add: ilog2_def)
next
  case False
  let ?y = "1 / a"
  let ?m = "\<lceil>?y\<rceil> - 1"
  have y: "1 < ?y" using False assms by simp
  have m: "0 < ?m" using y by (simp; linarith?)
  have b: "2 ^ nat (bitlen ?m - 1) \<le> ?m \<and> ?m < 2 ^ nat (bitlen ?m)"
    using bitlen_bounds [OF m] .
  have ge1: "1 \<le> bitlen ?m"
    using m bitlen_eq_zero_iff [of ?m] bitlen_nonneg [of ?m] by linarith
  have p: "(0::real) < 2 ^ nat (bitlen ?m)" by simp
  have lo: "(2::real) powi (- bitlen ?m) \<le> a"
  proof -
    have "?m + 1 \<le> 2 ^ nat (bitlen ?m)" using b by simp
    then have le2: "(of_int (?m + 1) :: real) \<le> of_int (2 ^ nat (bitlen ?m))"
      by (simp only: of_int_le_iff)
    have le1: "?y \<le> of_int (?m + 1)" by simp
    have "?y \<le> of_int (2 ^ nat (bitlen ?m))"
      using le1 le2 by (rule order_trans)
    then have "?y \<le> 2 ^ nat (bitlen ?m)" by simp
    then have "1 / 2 ^ nat (bitlen ?m) \<le> a"
      using assms p by (simp add: field_simps)
    then show ?thesis
      using ge1 by (simp add: power_int_def field_simps)
  qed
  have hi: "a < (2::real) powi (- bitlen ?m + 1)"
  proof -
    have le2: "(of_int (2 ^ nat (bitlen ?m - 1)) :: real) \<le> of_int ?m"
      using b by (simp only: of_int_le_iff)
    have le1: "of_int ?m < ?y" by (simp; linarith?)
    have "of_int (2 ^ nat (bitlen ?m - 1)) < ?y"
      using le2 le1 by (rule le_less_trans)
    then have "2 ^ nat (bitlen ?m - 1) < ?y" by simp
    then have "a < 1 / 2 ^ nat (bitlen ?m - 1)"
      using assms by (simp add: field_simps)
    moreover have "(2::real) powi (- bitlen ?m + 1) = 1 / 2 ^ nat (bitlen ?m - 1)"
    proof -
      have "(2::real) powi (- bitlen ?m + 1) = 2 powi (- (bitlen ?m - 1))" by simp
      also have "\<dots> = 1 / 2 powi (bitlen ?m - 1)" by (rule power_int_minus_divide)
      also have "\<dots> = 1 / 2 ^ nat (bitlen ?m - 1)"
        using ge1 by (simp add: power_int_def)
      finally show ?thesis .
    qed
    ultimately show ?thesis by simp
  qed
  show ?thesis
    using lo hi False by (simp add: ilog2_def)
qed

lemma ilog2_less:
  assumes "0 < a" and "a < 2 powi k"
  shows "ilog2 a < k"
proof (rule ccontr)
  assume "\<not> ilog2 a < k"
  then have "k \<le> ilog2 a" by simp
  then have "(2::real) powi k \<le> 2 powi (ilog2 a)"
    by (intro power_int_increasing) simp_all
  then show False
    using ilog2_bounds [OF assms(1)] assms(2) by linarith
qed


lemma round64_exact:
  assumes m: "\<bar>m\<bar> < 2 ^ 53" and q: "- 1074 \<le> q"
  shows "round64 (of_int m * 2 powi q) = of_int m * 2 powi q"
proof (cases "m = 0")
  case True
  then show ?thesis by (simp add: round64_def)
next
  case False
  define y :: real where "y = of_int m * 2 powi q"
  define q' where "q' = quantum y"
  define d where "d = nat (q - q')"
  have pos: "(0::real) < 2 powi q" by simp
  have y0: "y \<noteq> 0" using False by (simp add: y_def)
  have "\<bar>y\<bar> = of_int \<bar>m\<bar> * 2 powi q"
    by (simp add: y_def abs_mult)
  also have "\<dots> < of_int (2 ^ 53) * 2 powi q"
    using m pos by (intro mult_strict_right_mono) (simp_all only: of_int_less_iff)
  also have "\<dots> = 2 powi 53 * 2 powi q"
    by simp
  also have "\<dots> = 2 powi (53 + q)"
    by (rule power_int_add [symmetric]) simp
  finally have "\<bar>y\<bar> < 2 powi (53 + q)" .
  then have "ilog2 \<bar>y\<bar> < 53 + q"
    using y0 by (intro ilog2_less) simp_all
  then have le: "q' \<le> q"
    using q by (simp add: quantum_def q'_def)
  have "(2::real) powi q = 2 powi ((q - q') + q')" by simp
  also have "\<dots> = 2 powi (q - q') * 2 powi q'"
    by (rule power_int_add) simp
  also have "(2::real) powi (q - q') = 2 ^ d"
    using le by (simp add: power_int_def d_def)
  finally have split: "(2::real) powi q = 2 ^ d * 2 powi q'" .
  have "y / 2 powi q' = of_int (m * 2 ^ d)"
    by (simp add: y_def split)
  then have "roundEven (y / 2 powi q') = m * 2 ^ d"
    by (simp only: roundEven_of_int)
  then have "round64 y = of_int (m * 2 ^ d) * 2 powi q'"
    using y0 by (simp only: round64_def q'_def if_False)
  also have "\<dots> = y"
    by (simp add: y_def split)
  finally show ?thesis
    by (simp only: y_def)
qed

lemma round64_of_int: "\<bar>n\<bar> < 2 ^ 53 \<Longrightarrow> round64 (of_int n) = of_int n"
  using round64_exact [of n 0] by simp

lemma round64_representable:
  "\<exists>m q. \<bar>m\<bar> < 2 ^ 53 \<and> - 1074 \<le> q \<and> round64 x = of_int m * 2 powi q"
proof (cases "x = 0")
  case True
  have "round64 x = of_int 0 * 2 powi 0" using True by (simp add: round64_def)
  moreover have "\<bar>0::int\<bar> < 2 ^ 53" by simp
  ultimately show ?thesis by fastforce
next
  case False
  define q where "q = quantum x"
  define s where "s = x / 2 powi q"
  define m where "m = roundEven s"
  define B :: int where "B = 2 ^ 53"
  have q: "- 1074 \<le> q" and q': "ilog2 \<bar>x\<bar> + 1 \<le> q + 53"
    by (simp_all add: q_def quantum_def)
  have r: "round64 x = of_int m * 2 powi q"
    using False by (simp add: round64_def m_def s_def q_def)
  have B: "(2::real) powi 53 = of_int B"
    by (simp add: B_def)
  have "\<bar>x\<bar> < 2 powi (ilog2 \<bar>x\<bar> + 1)"
    using ilog2_bounds [of "\<bar>x\<bar>"] False by simp
  also have "\<dots> \<le> 2 powi (q + 53)"
    using q' by (intro power_int_increasing) simp_all
  also have "\<dots> = 2 powi q * 2 powi 53"
    by (rule power_int_add) simp
  finally have "\<bar>x\<bar> < 2 powi q * of_int B"
    by (simp only: B)
  then have "\<bar>x\<bar> / 2 powi q < of_int B"
    by (simp add: field_simps)
  then have "\<bar>s\<bar> < of_int B"
    by (simp add: s_def abs_divide)
  then have sl: "of_int (- B) \<le> s" and sh: "s \<le> of_int B"
    by (simp_all add: abs_less_iff)
  have lo: "- B \<le> m"
    unfolding m_def using sl by (rule roundEven_ge)
  have hi: "m \<le> B"
    unfolding m_def using sh by (rule roundEven_le)
  show ?thesis
  proof (cases "\<bar>m\<bar> < B")
    case True
    then show ?thesis using q r unfolding B_def by blast
  next
    case False
    then have mm: "m = B \<or> m = - B"
      using lo hi by linarith
    have even: "B = 2 * 2 ^ 52"
      by (simp add: B_def)
    have "(2::real) powi (q + 1) = 2 powi q * 2"
      by (rule power_int_add_1) simp
    moreover have "of_int m = of_int (m div 2) * (2::real)"
      using mm even by auto
    ultimately have "round64 x = of_int (m div 2) * 2 powi (q + 1)"
      using r by simp
    moreover have "\<bar>m div 2\<bar> < 2 ^ 53"
      using mm even by auto
    moreover have "- 1074 \<le> q + 1"
      using q by simp
    ultimately show ?thesis by blast
  qed
qed

lemma round64_idem: "round64 (round64 x) = round64 x"
proof -
  obtain m q where "\<bar>m\<bar> < 2 ^ 53" "- 1074 \<le> q" "round64 x = of_int m * 2 powi q"
    using round64_representable [of x] by blast
  then show ?thesis
    using round64_exact [of m q] by simp
qed

lemma round64_nonneg: "0 \<le> x \<Longrightarrow> 0 \<le> round64 x"
proof -
  assume x: "0 \<le> x"
  have "of_int 0 \<le> x / 2 powi quantum x"
    using x by simp
  then have "0 \<le> roundEven (x / 2 powi quantum x)"
    by (rule roundEven_ge)
  then show ?thesis
    by (simp add: round64_def)
qed

lemma round64_eval:
  assumes "x \<noteq> 0" and "quantum x = q" and "2 powi q = p" and "roundEven (x / p) = m"
  shows "round64 x = of_int m * p"
  using assms by (simp add: round64_def)

lemma bitlen_numeral: "bitlen (numeral k) = bitlen (numeral k div 2) + 1"
  by (subst compute_bitlen) simp

lemma bitlen_one: "bitlen 1 = 1"
  by (simp add: bitlen_alt_def)


lemma round64_zero: "round64 0 = 0"
  by (simp add: round64_def)

lemma round64_numeral: "numeral k < (2::int) ^ 53 \<Longrightarrow> round64 (numeral k) = numeral k"
  using round64_of_int [of "numeral k"] by simp

lemma round64_neg_numeral:
  "numeral k < (2::int) ^ 53 \<Longrightarrow> round64 (- numeral k) = - numeral k"
  using round64_of_int [of "- numeral k"] by simp

lemmas js_number_eval = fadd_def fsub_def fmul_def round64_zero round64_numeral round64_neg_numeral

lemma PAGE_BODY_HEIGHT_864: "PAGE_BODY_HEIGHT = 864"
  by (simp add: PAGE_BODY_HEIGHT_def PAGE_HEIGHT_def PAGE_MARGIN_def js_number_eval)

lemma fadd_zero_left: "round64 x = x \<Longrightarrow> fadd 0 x = x"
  by (simp add: fadd_def)

lemma fadd_nonneg: "0 \<le> x \<Longrightarrow> 0 \<le> y \<Longrightarrow> 0 \<le> fadd x y"
  by (simp add: fadd_def round64_nonneg)

lemma round64_fadd: "round64 (fadd x y) = fadd x y"
  by (simp add: fadd_def round64_idem)

subsection \<open>The measurer and one step of the loop\<close>

lemma snd_measureBlock: "snd (measureBlock env r b) = cleared r"
  by (simp add: measureBlock_def cleared_def Let_def split: option.splits list.splits)

lemma measured_cleared: "measured env (cleared r) b = measured env r b"
  by (simp add: measured_def measureBlock_def cleared_def Let_def split: option.splits list.splits)

lemma round64_measured: "round64 (measured env r b) = measured env r b"
  by (simp add: measured_def measureBlock_def round64_numeral round64_fadd
      split: option.splits list.splits)

lemma cleared_idem: "cleared (cleared r) = cleared r"
  by (cases r) (simp_all add: cleared_def)

lemma step_hard:
  "isHardPageBreak b \<Longrightarrow>
   paginate_step env C (res, cur, h, r) b = (res @ [cur], \<lparr>blocks = []\<rparr>, 0, r)"
  by simp

lemma step_soft:
  "\<not> isHardPageBreak b \<Longrightarrow> fadd h (measured env r b) > C \<Longrightarrow> blocks cur \<noteq> [] \<Longrightarrow>
   paginate_step env C (res, cur, h, r) b =
     (res @ [cur], \<lparr>blocks = [b]\<rparr>, fadd 0 (measured env r b), cleared r)"
  using snd_measureBlock [of env r b]
  by (cases "measureBlock env r b") (simp add: measured_def)

lemma step_add:
  "\<not> isHardPageBreak b \<Longrightarrow> \<not> (fadd h (measured env r b) > C \<and> blocks cur \<noteq> []) \<Longrightarrow>
   paginate_step env C (res, cur, h, r) b =
     (res, cur\<lparr>blocks := blocks cur @ [b]\<rparr>, fadd h (measured env r b), cleared r)"
  using snd_measureBlock [of env r b]
  by (cases "measureBlock env r b") (auto simp add: measured_def)

lemma step_cases:
  obtains (hard) "isHardPageBreak b"
      "paginate_step env C (res, cur, h, r) b = (res @ [cur], \<lparr>blocks = []\<rparr>, 0, r)"
    | (soft) "\<not> isHardPageBreak b" "fadd h (measured env r b) > C" "blocks cur \<noteq> []"
      "paginate_step env C (res, cur, h, r) b =
         (res @ [cur], \<lparr>blocks = [b]\<rparr>, fadd 0 (measured env r b), cleared r)"
    | (add) "\<not> isHardPageBreak b" "\<not> (fadd h (measured env r b) > C \<and> blocks cur \<noteq> [])"
      "paginate_step env C (res, cur, h, r) b =
         (res, cur\<lparr>blocks := blocks cur @ [b]\<rparr>, fadd h (measured env r b), cleared r)"
  using step_hard [where b = b and env = env and C = C and res = res and cur = cur and h = h and r = r]
    step_soft [where b = b and env = env and C = C and res = res and cur = cur and h = h and r = r]
    step_add [where b = b and env = env and C = C and res = res and cur = cur and h = h and r = r]
  by blast

declare paginate_step.simps [simp del]

lemma stateContent_step:
  "stateContent (paginate_step env C st b) =
     stateContent st @ (if isHardPageBreak b then [] else [b])"
proof -
  obtain res cur h r where st: "st = (res, cur, h, r)"
    by (cases st) auto
  show ?thesis
    unfolding st
    by (rule step_cases [where b = b and env = env and C = C and res = res and cur = cur
          and h = h and r = r])
       (simp_all add: stateContent_def pagesContent_def)
qed

lemma stateContent_loop:
  "stateContent (paginate_loop env C bs st) =
     stateContent st @ filter (\<lambda>b. \<not> isHardPageBreak b) bs"
  by (induction bs arbitrary: st) (simp_all add: stateContent_step)

lemma paginateWith_content:
  "pagesContent (fst (paginateWith env C bs r)) = filter (\<lambda>b. \<not> isHardPageBreak b) bs"
proof (cases "bs = []")
  case True
  then show ?thesis by (simp add: paginateWith_def pagesContent_def)
next
  case False
  obtain res cur h r' where
    loop: "paginate_loop env C bs ([], \<lparr>blocks = []\<rparr>, 0, r) = (res, cur, h, r')"
    by (cases "paginate_loop env C bs ([], \<lparr>blocks = []\<rparr>, 0, r)") auto
  have "stateContent (res, cur, h, r') = filter (\<lambda>b. \<not> isHardPageBreak b) bs"
    using stateContent_loop [of env C bs "([], \<lparr>blocks = []\<rparr>, 0, r)"]
    by (simp add: loop stateContent_def pagesContent_def)
  then show ?thesis
    using False by (auto simp add: paginateWith_def loop stateContent_def pagesContent_def)
qed


subsection \<open>Block conservation\<close>

text \<open>
  C1. The blocks of the output pages, concatenated in page order, are exactly the
  input blocks that are not hard breaks, in their input order; so the pages hold as
  many non-break blocks as the input does.
\<close>

theorem paginate_block_conservation:
  "concat (map blocks (fst (paginate env bs r))) = filter (\<lambda>b. \<not> isHardPageBreak b) bs
   \<and> length (filter (\<lambda>b. \<not> isHardPageBreak b) (concat (map blocks (fst (paginate env bs r)))))
       = length (filter (\<lambda>b. \<not> isHardPageBreak b) bs)"
  using paginateWith_content [of env PAGE_BODY_HEIGHT bs r]
  by (simp add: paginate_def pagesContent_def)

subsection \<open>Page capacity\<close>

lemma loop_invariant:
  assumes "I st"
    and "\<And>s b. I s \<Longrightarrow> b \<in> set bs \<Longrightarrow> I (paginate_step env C s b)"
  shows "I (paginate_loop env C bs st)"
  using assms
proof (induction bs arbitrary: st)
  case Nil
  then show ?case by simp
next
  case (Cons b bs)
  have "I (paginate_step env C st b)"
    using Cons.prems by simp
  then show ?case
    using Cons.IH Cons.prems(2) by simp
qed

lemma measured_ref: "r' = r \<or> r' = cleared r \<Longrightarrow> measured env r' b = measured env r b"
  by (auto simp add: measured_cleared)

lemma cleared_ref: "r' = r \<or> r' = cleared r \<Longrightarrow> cleared r' = r \<or> cleared r' = cleared r"
  by (auto simp add: cleared_idem)

lemma empty_within: "0 \<le> C \<Longrightarrow> pageWithinCapacity env r C \<lparr>blocks = []\<rparr>"
  by (simp add: pageWithinCapacity_def accumulatedHeight_def)

lemma single_within: "pageWithinCapacity env r C \<lparr>blocks = [b]\<rparr>"
proof -
  have "fadd 0 (measured env r b) = measured env r b"
    using round64_measured by (rule fadd_zero_left)
  then show ?thesis
    by (simp add: pageWithinCapacity_def accumulatedHeight_def) linarith
qed

lemma capacityInv_step:
  assumes C: "0 \<le> C" and inv: "capacityInv env r C st"
  shows "capacityInv env r C (paginate_step env C st b)"
proof -
  obtain res cur h r' where st: "st = (res, cur, h, r')"
    by (cases st) auto
  have res: "\<forall>p \<in> set res. pageWithinCapacity env r C p"
    and cur: "pageWithinCapacity env r C cur"
    and h: "h = accumulatedHeight env r cur"
    and r': "r' = r \<or> r' = cleared r"
    using inv by (simp_all add: capacityInv_def st)
  have m: "measured env r' b = measured env r b"
    using r' by (rule measured_ref)
  have cl: "cleared r' = r \<or> cleared r' = cleared r"
    using r' by (rule cleared_ref)
  show ?thesis
  proof (rule step_cases [where b = b and env = env and C = C and res = res and cur = cur
        and h = h and r = r'])
    assume eq: "paginate_step env C (res, cur, h, r') b = (res @ [cur], \<lparr>blocks = []\<rparr>, 0, r')"
    have "capacityInv env r C (res @ [cur], \<lparr>blocks = []\<rparr>, 0, r')"
      using res cur r' C by (simp add: capacityInv_def empty_within accumulatedHeight_def)
    then show ?thesis
      by (simp only: st eq)
  next
    assume eq: "paginate_step env C (res, cur, h, r') b =
      (res @ [cur], \<lparr>blocks = [b]\<rparr>, fadd 0 (measured env r' b), cleared r')"
    have "capacityInv env r C (res @ [cur], \<lparr>blocks = [b]\<rparr>, fadd 0 (measured env r' b), cleared r')"
      using res cur cl m by (simp add: capacityInv_def single_within accumulatedHeight_def)
    then show ?thesis
      by (simp only: st eq)
  next
    assume no: "\<not> (C < fadd h (measured env r' b) \<and> blocks cur \<noteq> [])"
      and eq: "paginate_step env C (res, cur, h, r') b =
        (res, cur\<lparr>blocks := blocks cur @ [b]\<rparr>, fadd h (measured env r' b), cleared r')"
    have "pageWithinCapacity env r C (cur\<lparr>blocks := blocks cur @ [b]\<rparr>)"
    proof (cases "blocks cur = []")
      case True
      then show ?thesis
        using single_within [of env r C b] by (simp add: pageWithinCapacity_def accumulatedHeight_def)
    next
      case False
      then have "fadd h (measured env r b) \<le> C"
        using no m by simp
      then show ?thesis
        by (simp add: pageWithinCapacity_def accumulatedHeight_def h)
    qed
    then have "capacityInv env r C
        (res, cur\<lparr>blocks := blocks cur @ [b]\<rparr>, fadd h (measured env r' b), cleared r')"
      using res cl m h by (simp add: capacityInv_def accumulatedHeight_def)
    then show ?thesis
      by (simp only: st eq)
  qed
qed

lemma paginateWith_capacity:
  assumes C: "0 \<le> C" and p: "p \<in> set (fst (paginateWith env C bs r))"
  shows "pageWithinCapacity env r C p"
proof (cases "bs = []")
  case True
  then show ?thesis
    using p C by (simp add: paginateWith_def empty_within)
next
  case False
  obtain res cur h r' where
    loop: "paginate_loop env C bs ([], \<lparr>blocks = []\<rparr>, 0, r) = (res, cur, h, r')"
    by (cases "paginate_loop env C bs ([], \<lparr>blocks = []\<rparr>, 0, r)") auto
  have "capacityInv env r C ([], \<lparr>blocks = []\<rparr>, 0, r)"
    using C by (simp add: capacityInv_def empty_within accumulatedHeight_def)
  then have "capacityInv env r C (paginate_loop env C bs ([], \<lparr>blocks = []\<rparr>, 0, r))"
    by (rule loop_invariant) (rule capacityInv_step [OF C])
  then have "(\<forall>p \<in> set res. pageWithinCapacity env r C p) \<and> pageWithinCapacity env r C cur"
    by (simp add: loop capacityInv_def)
  then show ?thesis
    using p False by (auto simp add: paginateWith_def loop split: if_splits)
qed


text \<open>
  C2, as the code has it. On every page of the output (the last one included), the
  height that the loop accumulates for the page, its blocks' measured heights added
  from zero in block order with every addition rounded to a double, is at most
  \<open>PAGE_BODY_HEIGHT\<close>, unless the page holds exactly one block and that block is taller
  than \<open>PAGE_BODY_HEIGHT\<close>.
\<close>

theorem paginate_page_capacity:
  "\<forall>p \<in> set (fst (paginate env bs r)).
     accumulatedHeight env r p \<le> PAGE_BODY_HEIGHT \<or>
     (length (blocks p) = 1 \<and> measured env r (hd (blocks p)) > PAGE_BODY_HEIGHT)"
proof
  fix p
  assume "p \<in> set (fst (paginate env bs r))"
  then have "p \<in> set (fst (paginateWith env PAGE_BODY_HEIGHT bs r))"
    by (simp add: paginate_def)
  moreover have "0 \<le> PAGE_BODY_HEIGHT"
    by (simp add: PAGE_BODY_HEIGHT_864)
  ultimately have "pageWithinCapacity env r PAGE_BODY_HEIGHT p"
    using paginateWith_capacity by blast
  then show "accumulatedHeight env r p \<le> PAGE_BODY_HEIGHT \<or>
     (length (blocks p) = 1 \<and> measured env r (hd (blocks p)) > PAGE_BODY_HEIGHT)"
    by (simp add: pageWithinCapacity_def)
qed

theorem paginate_page_capacity_witness:
  "\<lparr>blocks = [js ''<p>a</p>'']\<rparr> \<in> set (fst (paginate (fixed_dom 1000 None None) [js ''<p>a</p>''] (Some [])))
   \<and> \<not> accumulatedHeight (fixed_dom 1000 None None) (Some []) \<lparr>blocks = [js ''<p>a</p>'']\<rparr> \<le> PAGE_BODY_HEIGHT
   \<and> length (blocks \<lparr>blocks = [js ''<p>a</p>'']\<rparr>) = 1
   \<and> measured (fixed_dom 1000 None None) (Some []) (hd (blocks \<lparr>blocks = [js ''<p>a</p>'']\<rparr>)) > PAGE_BODY_HEIGHT"
proof -
  have mem: "\<lparr>blocks = [js ''<p>a</p>'']\<rparr>
      \<in> set (fst (paginate (fixed_dom 1000 None None) [js ''<p>a</p>''] (Some [])))"
    by (simp add: paginate_def paginateWith_def paginate_step.simps isHardPageBreak_def js_def
        measureBlock_def fixed_dom_def orZero_def PAGE_BODY_HEIGHT_864 js_number_eval)
  have tall: "\<not> accumulatedHeight (fixed_dom 1000 None None) (Some []) \<lparr>blocks = [js ''<p>a</p>'']\<rparr>
      \<le> PAGE_BODY_HEIGHT"
    by (simp add: accumulatedHeight_def measured_def measureBlock_def fixed_dom_def orZero_def
        PAGE_BODY_HEIGHT_864 js_number_eval)
  show ?thesis
    using paginate_page_capacity [of "fixed_dom 1000 None None" "[js ''<p>a</p>'']" "Some []"]
      mem tall
    by auto
qed

subsection \<open>Rounding in the running sum\<close>

text \<open>
  Six blocks whose box is 172 high with a top margin of 0.8. Each measures the double
  nearest to 172.8, which lies above 172.8; the running sum of five of them rounds to
  exactly 864, so the fifth block still goes on the first page.
\<close>

lemma sample_margin: "round64 (4 / 5) = 3602879701896397 / 4503599627370496"
proof -
  have q: "quantum (4 / 5) = - 53"
    by (simp add: quantum_def ilog2_def bitlen_numeral bitlen_one)
  have p: "(2::real) powi (- 53) = 1 / 9007199254740992"
    by (simp add: power_int_def field_simps)
  have m: "roundEven ((4 / 5) / (1 / 9007199254740992)) = 7205759403792794"
    by (simp add: roundEven_def Let_def)
  have "round64 (4 / 5) = of_int 7205759403792794 * (1 / 9007199254740992)"
    by (rule round64_eval [OF _ q p m]) simp
  then show ?thesis
    by simp
qed

lemma sample_height: "round64 (778222015609621709 / 4503599627370496) = 3039929748475085 / 17592186044416"
proof -
  have q: "quantum (778222015609621709 / 4503599627370496) = - 45"
    by (simp add: quantum_def ilog2_def bitlen_numeral bitlen_one)
  have p: "(2::real) powi (- 45) = 1 / 35184372088832"
    by (simp add: power_int_def field_simps)
  have m: "roundEven ((778222015609621709 / 4503599627370496) / (1 / 35184372088832)) = 6079859496950170"
    by (simp add: roundEven_def Let_def)
  have "round64 (778222015609621709 / 4503599627370496) = of_int 6079859496950170 * (1 / 35184372088832)"
    by (rule round64_eval [OF _ q p m]) simp
  then show ?thesis
    by simp
qed

lemma sample_sum1: "round64 (3039929748475085 / 17592186044416) = 3039929748475085 / 17592186044416"
proof -
  have q: "quantum (3039929748475085 / 17592186044416) = - 45"
    by (simp add: quantum_def ilog2_def bitlen_numeral bitlen_one)
  have p: "(2::real) powi (- 45) = 1 / 35184372088832"
    by (simp add: power_int_def field_simps)
  have m: "roundEven ((3039929748475085 / 17592186044416) / (1 / 35184372088832)) = 6079859496950170"
    by (simp add: roundEven_def Let_def)
  have "round64 (3039929748475085 / 17592186044416) = of_int 6079859496950170 * (1 / 35184372088832)"
    by (rule round64_eval [OF _ q p m]) simp
  then show ?thesis
    by simp
qed

lemma sample_sum2: "round64 (3039929748475085 / 8796093022208) = 3039929748475085 / 8796093022208"
proof -
  have q: "quantum (3039929748475085 / 8796093022208) = - 44"
    by (simp add: quantum_def ilog2_def bitlen_numeral bitlen_one)
  have p: "(2::real) powi (- 44) = 1 / 17592186044416"
    by (simp add: power_int_def field_simps)
  have m: "roundEven ((3039929748475085 / 8796093022208) / (1 / 17592186044416)) = 6079859496950170"
    by (simp add: roundEven_def Let_def)
  have "round64 (3039929748475085 / 8796093022208) = of_int 6079859496950170 * (1 / 17592186044416)"
    by (rule round64_eval [OF _ q p m]) simp
  then show ?thesis
    by simp
qed

lemma sample_sum3: "round64 (9119789245425255 / 17592186044416) = 1139973655678157 / 2199023255552"
proof -
  have q: "quantum (9119789245425255 / 17592186044416) = - 43"
    by (simp add: quantum_def ilog2_def bitlen_numeral bitlen_one)
  have p: "(2::real) powi (- 43) = 1 / 8796093022208"
    by (simp add: power_int_def field_simps)
  have m: "roundEven ((9119789245425255 / 17592186044416) / (1 / 8796093022208)) = 4559894622712628"
    by (simp add: roundEven_def Let_def)
  have "round64 (9119789245425255 / 17592186044416) = of_int 4559894622712628 * (1 / 8796093022208)"
    by (rule round64_eval [OF _ q p m]) simp
  then show ?thesis
    by simp
qed

lemma sample_sum4: "round64 (12159718993900341 / 17592186044416) = 3039929748475085 / 4398046511104"
proof -
  have q: "quantum (12159718993900341 / 17592186044416) = - 43"
    by (simp add: quantum_def ilog2_def bitlen_numeral bitlen_one)
  have p: "(2::real) powi (- 43) = 1 / 8796093022208"
    by (simp add: power_int_def field_simps)
  have m: "roundEven ((12159718993900341 / 17592186044416) / (1 / 8796093022208)) = 6079859496950170"
    by (simp add: roundEven_def Let_def)
  have "round64 (12159718993900341 / 17592186044416) = of_int 6079859496950170 * (1 / 8796093022208)"
    by (rule round64_eval [OF _ q p m]) simp
  then show ?thesis
    by simp
qed

lemma sample_sum5: "round64 (15199648742375425 / 17592186044416) = 864"
proof -
  have q: "quantum (15199648742375425 / 17592186044416) = - 43"
    by (simp add: quantum_def ilog2_def bitlen_numeral bitlen_one)
  have p: "(2::real) powi (- 43) = 1 / 8796093022208"
    by (simp add: power_int_def field_simps)
  have m: "roundEven ((15199648742375425 / 17592186044416) / (1 / 8796093022208)) = 7599824371187712"
    by (simp add: roundEven_def Let_def)
  have "round64 (15199648742375425 / 17592186044416) = of_int 7599824371187712 * (1 / 8796093022208)"
    by (rule round64_eval [OF _ q p m]) simp
  then show ?thesis
    by simp
qed

lemma sample_sum6: "round64 (18239578490850509 / 17592186044416) = 4559894622712627 / 4398046511104"
proof -
  have q: "quantum (18239578490850509 / 17592186044416) = - 42"
    by (simp add: quantum_def ilog2_def bitlen_numeral bitlen_one)
  have p: "(2::real) powi (- 42) = 1 / 4398046511104"
    by (simp add: power_int_def field_simps)
  have m: "roundEven ((18239578490850509 / 17592186044416) / (1 / 4398046511104)) = 4559894622712627"
    by (simp add: roundEven_def Let_def)
  have "round64 (18239578490850509 / 17592186044416) = of_int 4559894622712627 * (1 / 4398046511104)"
    by (rule round64_eval [OF _ q p m]) simp
  then show ?thesis
    by simp
qed

lemma sample_measureBlock:
  "measureBlock (fixed_dom 172 (Some (4 / 5)) None) (Some s) b
     = (3039929748475085 / 17592186044416, Some [])"
  by (simp add: measureBlock_def fixed_dom_def orZero_def fadd_def round64_numeral
      sample_margin sample_height sample_sum1)

lemma sample_pages:
  "fst (paginate (fixed_dom 172 (Some (4 / 5)) None) (replicate 6 (js ''<p>a</p>'')) (Some []))
     = [\<lparr>blocks = replicate 5 (js ''<p>a</p>'')\<rparr>, \<lparr>blocks = [js ''<p>a</p>'']\<rparr>]"
proof -
  have nb: "\<not> isHardPageBreak (js ''<p>a</p>'')"
    by (simp add: isHardPageBreak_def js_def)
  show ?thesis
    by (simp add: paginate_def paginateWith_def paginate_step.simps nb sample_measureBlock
        fadd_def sample_sum1 sample_sum2 sample_sum3 sample_sum4 sample_sum5 sample_sum6
        PAGE_BODY_HEIGHT_864 eval_nat_numeral)
qed

text \<open>
  C2, as stated, fails: the first of these two pages holds five blocks, and the exact
  sum of their measured heights is greater than \<open>PAGE_BODY_HEIGHT\<close>.
\<close>

theorem paginate_page_capacity_counterexample:
  "fst (paginate (fixed_dom 172 (Some (4 / 5)) None) (replicate 6 (js ''<p>a</p>'')) (Some []))
     = [\<lparr>blocks = replicate 5 (js ''<p>a</p>'')\<rparr>, \<lparr>blocks = [js ''<p>a</p>'']\<rparr>]
   \<and> PAGE_BODY_HEIGHT
       < pageHeight (fixed_dom 172 (Some (4 / 5)) None) (Some [])
           \<lparr>blocks = replicate 5 (js ''<p>a</p>'')\<rparr>
   \<and> length (blocks \<lparr>blocks = replicate 5 (js ''<p>a</p>'')\<rparr>) = 5"
  by (simp add: sample_pages pageHeight_def measured_def sample_measureBlock
      PAGE_BODY_HEIGHT_864 sum_list_replicate)

subsection \<open>No state leaks between runs\<close>

lemma step_clearState:
  "paginate_step env C (clearState st) b = clearState (paginate_step env C st b)"
proof -
  obtain res cur h r where st: "st = (res, cur, h, r)"
    by (cases st) auto
  show ?thesis
  proof (rule step_cases [where b = b and env = env and C = C and res = res and cur = cur
        and h = h and r = r])
    assume hb: "isHardPageBreak b"
      and eq: "paginate_step env C (res, cur, h, r) b = (res @ [cur], \<lparr>blocks = []\<rparr>, 0, r)"
    show ?thesis
      using step_hard [OF hb, of env C res cur h "cleared r"]
      by (simp add: st eq clearState_def)
  next
    assume hb: "\<not> isHardPageBreak b" and gt: "C < fadd h (measured env r b)"
      and ne: "blocks cur \<noteq> []"
      and eq: "paginate_step env C (res, cur, h, r) b =
        (res @ [cur], \<lparr>blocks = [b]\<rparr>, fadd 0 (measured env r b), cleared r)"
    have "C < fadd h (measured env (cleared r) b)"
      using gt by (simp add: measured_cleared)
    from step_soft [OF hb this ne, of res] show ?thesis
      by (simp add: st eq clearState_def measured_cleared cleared_idem)
  next
    assume hb: "\<not> isHardPageBreak b"
      and no: "\<not> (C < fadd h (measured env r b) \<and> blocks cur \<noteq> [])"
      and eq: "paginate_step env C (res, cur, h, r) b =
        (res, cur\<lparr>blocks := blocks cur @ [b]\<rparr>, fadd h (measured env r b), cleared r)"
    have "\<not> (C < fadd h (measured env (cleared r) b) \<and> blocks cur \<noteq> [])"
      using no by (simp add: measured_cleared)
    from step_add [OF hb this, of res] show ?thesis
      by (simp add: st eq clearState_def measured_cleared cleared_idem)
  qed
qed

lemma loop_clearState:
  "paginate_loop env C bs (clearState st) = clearState (paginate_loop env C bs st)"
  by (induction bs arbitrary: st) (simp_all add: step_clearState)

lemma paginateWith_cleared:
  "fst (paginateWith env C bs (cleared r)) = fst (paginateWith env C bs r)"
proof (cases "bs = []")
  case True
  then show ?thesis by (simp add: paginateWith_def)
next
  case False
  obtain res cur h r' where
    loop: "paginate_loop env C bs ([], \<lparr>blocks = []\<rparr>, 0, r) = (res, cur, h, r')"
    by (cases "paginate_loop env C bs ([], \<lparr>blocks = []\<rparr>, 0, r)") auto
  have "paginate_loop env C bs ([], \<lparr>blocks = []\<rparr>, 0, cleared r) = (res, cur, h, cleared r')"
    using loop_clearState [of env C bs "([], \<lparr>blocks = []\<rparr>, 0, r)"]
    by (simp add: clearState_def loop)
  then show ?thesis
    using False by (simp add: paginateWith_def loop)
qed

lemma step_ref:
  assumes "snd (snd (snd st)) = r \<or> snd (snd (snd st)) = cleared r"
  shows "snd (snd (snd (paginate_step env C st b))) = r
       \<or> snd (snd (snd (paginate_step env C st b))) = cleared r"
proof -
  obtain res cur h r' where st: "st = (res, cur, h, r')"
    by (cases st) auto
  have r': "r' = r \<or> r' = cleared r"
    using assms by (simp add: st)
  show ?thesis
    unfolding st
    by (rule step_cases [where b = b and env = env and C = C and res = res and cur = cur
          and h = h and r = r'])
       (use r' in \<open>auto simp add: cleared_idem\<close>)
qed

lemma paginateWith_ref:
  "snd (paginateWith env C bs r) = r \<or> snd (paginateWith env C bs r) = cleared r"
proof (cases "bs = []")
  case True
  then show ?thesis by (simp add: paginateWith_def)
next
  case False
  obtain res cur h r' where
    loop: "paginate_loop env C bs ([], \<lparr>blocks = []\<rparr>, 0, r) = (res, cur, h, r')"
    by (cases "paginate_loop env C bs ([], \<lparr>blocks = []\<rparr>, 0, r)") auto
  have "snd (snd (snd (paginate_loop env C bs ([], \<lparr>blocks = []\<rparr>, 0, r)))) = r
      \<or> snd (snd (snd (paginate_loop env C bs ([], \<lparr>blocks = []\<rparr>, 0, r)))) = cleared r"
    by (rule loop_invariant) (simp, rule step_ref)
  then show ?thesis
    using False by (simp add: paginateWith_def loop)
qed

text \<open>
  C8. Pagination is deterministic, and the only state it touches, the scratch element
  of the measurer, does not influence it: a second run, started from the scratch
  element that the first run left behind, yields the same page list, and so do two
  runs started from scratch elements with different contents. This holds for every
  block sequence, capacity and browser.
\<close>

theorem paginate_deterministic:
  "fst (paginateWith env C bs (snd (paginateWith env C bs r))) = fst (paginateWith env C bs r)
   \<and> fst (paginateWith env C bs (Some s)) = fst (paginateWith env C bs (Some t))
   \<and> fst (paginate env bs (snd (paginate env bs r))) = fst (paginate env bs r)"
proof -
  have twice: "fst (paginateWith env C' bs (snd (paginateWith env C' bs r)))
      = fst (paginateWith env C' bs r)" for C'
    using paginateWith_ref [of env C' bs r] by (auto simp add: paginateWith_cleared)
  have "fst (paginateWith env C bs (cleared (Some s))) = fst (paginateWith env C bs (cleared (Some t)))"
    by (simp add: cleared_def)
  then have "fst (paginateWith env C bs (Some s)) = fst (paginateWith env C bs (Some t))"
    by (simp only: paginateWith_cleared)
  then show ?thesis
    using twice by (simp add: paginate_def)
qed

subsection \<open>Break detection by substring\<close>



lemma page_blocks_not_hard:
  assumes "p \<in> set (fst (paginateWith env C bs r))" and "b \<in> set (blocks p)"
  shows "\<not> isHardPageBreak b"
proof -
  have "b \<in> set (pagesContent (fst (paginateWith env C bs r)))"
    using assms by (auto simp add: pagesContent_def)
  then show ?thesis
    by (simp add: paginateWith_content)
qed



subsection \<open>parseBlocks on plain text and on blank content\<close>

lemma trim_empty_iff: "trim s = [] \<longleftrightarrow> (\<forall>c \<in> set s. isWhiteSpace c)"
proof
  assume "trim s = []"
  then have "dropWhile isWhiteSpace (rev (dropWhile isWhiteSpace s)) = []"
    by (simp add: trim_def)
  then have "\<forall>c \<in> set (rev (dropWhile isWhiteSpace s)). isWhiteSpace c"
    by (simp only: dropWhile_eq_Nil_conv)
  then have all: "\<forall>c \<in> set (dropWhile isWhiteSpace s). isWhiteSpace c"
    by simp
  show "\<forall>c \<in> set s. isWhiteSpace c"
  proof (rule ccontr)
    assume "\<not> (\<forall>c \<in> set s. isWhiteSpace c)"
    then have ne: "dropWhile isWhiteSpace s \<noteq> []"
      by (simp only: dropWhile_eq_Nil_conv) simp
    then have "\<not> isWhiteSpace (hd (dropWhile isWhiteSpace s))"
      by (rule hd_dropWhile)
    moreover have "hd (dropWhile isWhiteSpace s) \<in> set (dropWhile isWhiteSpace s)"
      using ne by (rule hd_in_set)
    ultimately show False
      using all by blast
  qed
next
  assume "\<forall>c \<in> set s. isWhiteSpace c"
  then have d: "dropWhile isWhiteSpace s = []"
    by (simp only: dropWhile_eq_Nil_conv)
  show "trim s = []"
    unfolding trim_def d by simp
qed

text \<open>
  C10. When the content is not blank after trimming and the parser finds no element
  in it, \<open>parseBlocks\<close> returns the single block \<open><p>content</p>\<close>; when the
  content is empty or consists of white space only, it returns no block.
\<close>

theorem parseBlocks_plain_text:
  "(trim html \<noteq> [] \<and> parseChildren env html = [] \<longrightarrow>
      parseBlocks env html = [js ''<p>'' @ html @ js ''</p>''])
   \<and> ((\<forall>c \<in> set html. isWhiteSpace c) \<longrightarrow> parseBlocks env html = [])"
proof -
  have "html \<noteq> []" if "trim html \<noteq> []"
    using that by (auto simp add: trim_def)
  then show ?thesis
    by (auto simp add: parseBlocks_def trim_empty_iff [symmetric])
qed

theorem parseBlocks_plain_text_witness:
  "trim (js ''hello'') \<noteq> [] \<and> parseChildren bare_dom (js ''hello'') = []
   \<and> parseBlocks bare_dom (js ''hello'') = [js ''<p>hello</p>'']
   \<and> isWhiteSpace 0x20 \<and> isWhiteSpace 0x0A
   \<and> parseBlocks (fixed_dom 20 None None) [0x20, 0x0A] = []"
proof -
  have a: "trim (js ''hello'') \<noteq> []"
    by (simp add: trim_def js_def isWhiteSpace_def)
  have b: "parseChildren bare_dom (js ''hello'') = []"
    by (simp add: bare_dom_def)
  have c: "isWhiteSpace 0x20 \<and> isWhiteSpace 0x0A"
    by (simp add: isWhiteSpace_def)
  show ?thesis
    using parseBlocks_plain_text [of "js ''hello''" bare_dom]
      parseBlocks_plain_text [of "[0x20, 0x0A]" "fixed_dom 20 None None"] a b c
    by (simp add: js_def)
qed

subsection \<open>The empty document\<close>

text \<open>
  C5. Paginating zero blocks gives exactly one page with zero blocks. Content that
  parses to zero blocks is therefore shown as one empty page whose footer reads
  \<open>Page 1 of 1\<close>, and empty or white-space-only content parses to zero blocks.
\<close>

theorem empty_document_one_page:
  "fst (paginate env [] r) = [\<lparr>blocks = []\<rparr>]
   \<and> (parseBlocks env content = [] \<longrightarrow>
        fst (repaginate env content r) = [\<lparr>blocks = []\<rparr>]
        \<and> pageFooters (fst (repaginate env content r)) = [js ''Page 1 of 1''])
   \<and> ((\<forall>c \<in> set content. isWhiteSpace c) \<longrightarrow> parseBlocks env content = [])"
proof -
  have one: "fst (paginate env [] r) = [\<lparr>blocks = []\<rparr>]"
    by (simp add: paginate_def paginateWith_def)
  have foot: "pageFooters [\<lparr>blocks = []\<rparr>] = [js ''Page 1 of 1'']"
    by (simp add: pageFooters_def pageFooter_def js_def numberToString.simps)
  have "parseBlocks env content = []" if "\<forall>c \<in> set content. isWhiteSpace c"
    using that by (simp add: parseBlocks_def trim_empty_iff)
  then show ?thesis
    using one foot by (simp add: repaginate_def)
qed

theorem empty_document_one_page_witness:
  "parseBlocks (fixed_dom 20 None None) (js ''   '') = []
   \<and> fst (repaginate (fixed_dom 20 None None) (js ''   '') (Some [])) = [\<lparr>blocks = []\<rparr>]
   \<and> pageFooters (fst (repaginate (fixed_dom 20 None None) (js ''   '') (Some [])))
       = [js ''Page 1 of 1'']"
proof -
  have ws: "\<forall>c \<in> set (js ''   ''). isWhiteSpace c"
    by (simp add: js_def isWhiteSpace_def)
  from empty_document_one_page [of "fixed_dom 20 None None" "Some []" "js ''   ''"] ws
  have "parseBlocks (fixed_dom 20 None None) (js ''   '') = []"
    by blast
  with empty_document_one_page [of "fixed_dom 20 None None" "Some []" "js ''   ''"]
  show ?thesis
    by blast
qed

subsection \<open>A trailing hard break\<close>

lemma loop_append:
  "paginate_loop env C (xs @ ys) st = paginate_loop env C ys (paginate_loop env C xs st)"
  by (induction xs arbitrary: st) simp_all

lemma loop_snoc:
  "paginate_loop env C (xs @ [b]) st = paginate_step env C (paginate_loop env C xs st) b"
  by (simp add: loop_append)

lemma paginateWith_snoc_hard:
  assumes hb: "isHardPageBreak b"
    and loop: "paginate_loop env C xs ([], \<lparr>blocks = []\<rparr>, 0, r) = (res, cur, h, r')"
  shows "paginateWith env C (xs @ [b]) r = (res @ [cur], r')"
  using step_hard [OF hb, of env C res cur h r']
  by (simp add: paginateWith_def loop_snoc loop)

lemma loop_last_state:
  assumes "xs \<noteq> []"
    and loop: "paginate_loop env C xs st = (res, cur, h, r')"
  shows "if isHardPageBreak (last xs) then blocks cur = [] \<and> res \<noteq> []
         else blocks cur \<noteq> [] \<and> last (blocks cur) = last xs"
proof -
  obtain ys b where xs: "xs = ys @ [b]"
    using \<open>xs \<noteq> []\<close> by (cases xs rule: rev_cases) auto
  obtain res0 cur0 h0 r0 where
    pre: "paginate_loop env C ys st = (res0, cur0, h0, r0)"
    by (cases "paginate_loop env C ys st") auto
  have step: "paginate_step env C (res0, cur0, h0, r0) b = (res, cur, h, r')"
    using loop by (simp add: xs loop_snoc pre)
  show ?thesis
    by (rule step_cases [where b = b and env = env and C = C and res = res0 and cur = cur0
          and h = h0 and r = r0])
       (use step in \<open>auto simp add: xs\<close>)
qed

lemma paginateWith_trailing_break:
  assumes hb: "isHardPageBreak b"
  shows "fst (paginateWith env C (xs @ [b]) r) =
     (if xs \<noteq> [] \<and> isHardPageBreak (last xs)
      then fst (paginateWith env C xs r) @ [\<lparr>blocks = []\<rparr>]
      else fst (paginateWith env C xs r))"
    and "blocks (last (fst (paginateWith env C (xs @ [b]) r))) = []
           \<longleftrightarrow> xs = [] \<or> isHardPageBreak (last xs)"
    and "xs \<noteq> [] \<and> \<not> isHardPageBreak (last xs) \<longrightarrow>
           last (blocks (last (fst (paginateWith env C (xs @ [b]) r)))) = last xs"
proof -
  obtain res cur h r' where
    loop: "paginate_loop env C xs ([], \<lparr>blocks = []\<rparr>, 0, r) = (res, cur, h, r')"
    by (cases "paginate_loop env C xs ([], \<lparr>blocks = []\<rparr>, 0, r)") auto
  have snoc: "fst (paginateWith env C (xs @ [b]) r) = res @ [cur]"
    using paginateWith_snoc_hard [OF hb loop] by simp
  have "fst (paginateWith env C (xs @ [b]) r) =
     (if xs \<noteq> [] \<and> isHardPageBreak (last xs)
      then fst (paginateWith env C xs r) @ [\<lparr>blocks = []\<rparr>]
      else fst (paginateWith env C xs r))
    \<and> (blocks cur = [] \<longleftrightarrow> xs = [] \<or> isHardPageBreak (last xs))
    \<and> (xs \<noteq> [] \<and> \<not> isHardPageBreak (last xs) \<longrightarrow> last (blocks cur) = last xs)"
  proof (cases "xs = []")
    case True
    then have "res = []" and "cur = \<lparr>blocks = []\<rparr>"
      using loop by simp_all
    then show ?thesis
      using True snoc by (simp add: paginateWith_def)
  next
    case False
    from loop_last_state [OF False loop] show ?thesis
      using False snoc by (auto simp add: paginateWith_def loop split: if_splits)
  qed
  then have e1: "fst (paginateWith env C (xs @ [b]) r) =
     (if xs \<noteq> [] \<and> isHardPageBreak (last xs)
      then fst (paginateWith env C xs r) @ [\<lparr>blocks = []\<rparr>]
      else fst (paginateWith env C xs r))"
    and e2: "blocks cur = [] \<longleftrightarrow> xs = [] \<or> isHardPageBreak (last xs)"
    and e3: "xs \<noteq> [] \<and> \<not> isHardPageBreak (last xs) \<longrightarrow> last (blocks cur) = last xs"
    by blast+
  have lst: "last (fst (paginateWith env C (xs @ [b]) r)) = cur"
    by (simp add: snoc)
  show "fst (paginateWith env C (xs @ [b]) r) =
     (if xs \<noteq> [] \<and> isHardPageBreak (last xs)
      then fst (paginateWith env C xs r) @ [\<lparr>blocks = []\<rparr>]
      else fst (paginateWith env C xs r))"
    by (rule e1)
  show "blocks (last (fst (paginateWith env C (xs @ [b]) r))) = []
           \<longleftrightarrow> xs = [] \<or> isHardPageBreak (last xs)"
    unfolding lst by (rule e2)
  show "xs \<noteq> [] \<and> \<not> isHardPageBreak (last xs) \<longrightarrow>
           last (blocks (last (fst (paginateWith env C (xs @ [b]) r)))) = last xs"
    unfolding lst by (rule e3)
qed

text \<open>
  C4, as the code has it. A hard break at the end of the input closes the current page
  and opens no further one: the output is that of the input without the trailing
  break, and gains one empty page only when the block before the trailing break is
  itself a hard break. The last page of the output is empty exactly when the trailing
  break is the sole block or follows another hard break; otherwise the last page is
  not empty and ends with the block that precedes the trailing break.
\<close>

theorem trailing_hard_break:
  "isHardPageBreak b \<Longrightarrow>
   fst (paginate env (xs @ [b]) r) =
     (if xs \<noteq> [] \<and> isHardPageBreak (last xs)
      then fst (paginate env xs r) @ [\<lparr>blocks = []\<rparr>]
      else fst (paginate env xs r))
   \<and> (blocks (last (fst (paginate env (xs @ [b]) r))) = []
        \<longleftrightarrow> xs = [] \<or> isHardPageBreak (last xs))
   \<and> (xs \<noteq> [] \<and> \<not> isHardPageBreak (last xs) \<longrightarrow>
        last (blocks (last (fst (paginate env (xs @ [b]) r)))) = last xs)"
  using paginateWith_trailing_break [where b = b and env = env and C = PAGE_BODY_HEIGHT
      and xs = xs and r = r]
  by (simp add: paginate_def)

theorem trailing_hard_break_witness:
  "isHardPageBreak (js ''<div class=page-break></div>'')
   \<and> fst (paginate bare_dom ([js ''<p>a</p>''] @ [js ''<div class=page-break></div>'']) None)
       = fst (paginate bare_dom [js ''<p>a</p>''] None)
   \<and> fst (paginate bare_dom [js ''<p>a</p>''] None) = [\<lparr>blocks = [js ''<p>a</p>'']\<rparr>]
   \<and> blocks (last (fst (paginate bare_dom
         ([js ''<p>a</p>''] @ [js ''<div class=page-break></div>'']) None))) \<noteq> []
   \<and> last (blocks (last (fst (paginate bare_dom
         ([js ''<p>a</p>''] @ [js ''<div class=page-break></div>'']) None)))) = js ''<p>a</p>''"
proof -
  have hb: "isHardPageBreak (js ''<div class=page-break></div>'')"
    by (simp add: isHardPageBreak_def js_def)
  have nb: "\<not> isHardPageBreak (js ''<p>a</p>'')"
    by (simp add: isHardPageBreak_def js_def)
  have one: "fst (paginate bare_dom [js ''<p>a</p>''] None) = [\<lparr>blocks = [js ''<p>a</p>'']\<rparr>]"
    by (simp add: paginate_def paginateWith_def paginate_step.simps nb
        measureBlock_def bare_dom_def PAGE_BODY_HEIGHT_864 js_number_eval)
  show ?thesis
    using trailing_hard_break [OF hb, of bare_dom "[js ''<p>a</p>'']" None] hb nb one
    by simp
qed

text \<open>
  C4, as stated, fails: for a paragraph followed by a hard break the output is the
  single page holding the paragraph, and its last page is not empty.
\<close>

theorem trailing_hard_break_counterexample:
  "isHardPageBreak (last [js ''<p>a</p>'', js ''<div class=page-break></div>''])
   \<and> fst (paginate bare_dom [js ''<p>a</p>'', js ''<div class=page-break></div>''] None)
       = [\<lparr>blocks = [js ''<p>a</p>'']\<rparr>]
   \<and> blocks (last (fst (paginate bare_dom
         [js ''<p>a</p>'', js ''<div class=page-break></div>''] None))) \<noteq> []"
proof -
  have hb: "isHardPageBreak (js ''<div class=page-break></div>'')"
    by (simp add: isHardPageBreak_def js_def)
  have nb: "\<not> isHardPageBreak (js ''<p>a</p>'')"
    by (simp add: isHardPageBreak_def js_def)
  have "fst (paginate bare_dom [js ''<p>a</p>'', js ''<div class=page-break></div>''] None)
       = [\<lparr>blocks = [js ''<p>a</p>'']\<rparr>]"
    by (simp add: paginate_def paginateWith_def paginate_step.simps hb nb
        measureBlock_def bare_dom_def PAGE_BODY_HEIGHT_864 js_number_eval)
  then show ?thesis
    using hb by simp
qed

subsection \<open>The measurer\<close>

lemma orZero_round64_nonneg: "0 \<le> orZero x \<Longrightarrow> 0 \<le> orZero (map_option round64 x)"
  by (cases x) (auto simp add: orZero_def round64_nonneg split: if_splits)

text \<open>
  C7, as the code has it. The measurer has no failing branch. It returns the fallback
  height 40 when the scratch element is unavailable and when the fragment holds no
  element; otherwise it returns the box height of the first element plus its two
  parsed margins, which is non-negative whenever the box height and both margins are.
\<close>

theorem measureBlock_fallback:
  "measured env None b = 40
   \<and> (parseChildren env b = [] \<longrightarrow> measured env r b = 40)
   \<and> (\<forall>e es. r \<noteq> None \<and> parseChildren env b = e # es \<longrightarrow>
        measured env r b
          = fadd (fadd (round64 (rectHeight env e)) (orZero (map_option round64 (marginTop env e))))
              (orZero (map_option round64 (marginBottom env e))))
   \<and> ((\<forall>e \<in> set (parseChildren env b).
          0 \<le> rectHeight env e \<and> 0 \<le> orZero (marginTop env e) \<and> 0 \<le> orZero (marginBottom env e))
        \<longrightarrow> 0 \<le> measured env r b)"
  by (cases r; cases "parseChildren env b")
     (simp_all add: measured_def measureBlock_def fadd_nonneg round64_nonneg
        orZero_round64_nonneg)

theorem measureBlock_fallback_witness:
  "parseChildren bare_dom (js ''   '') = [] \<and> measured bare_dom (Some []) (js ''   '') = 40
   \<and> Some [] \<noteq> (None :: jsstring option)
   \<and> parseChildren (fixed_dom 20 (Some 8) None) (js ''<p>a</p>'') = [()] 
   \<and> measured (fixed_dom 20 (Some 8) None) (Some []) (js ''<p>a</p>'') = 28
   \<and> 0 \<le> measured (fixed_dom 20 (Some 8) None) (Some []) (js ''<p>a</p>'')"
proof -
  have a: "parseChildren bare_dom (js ''   '') = []"
    by (simp add: bare_dom_def)
  have b: "parseChildren (fixed_dom 20 (Some 8) None) (js ''<p>a</p>'') = [()]"
    by (simp add: fixed_dom_def)
  have c: "rectHeight (fixed_dom 20 (Some 8) None) () = 20
      \<and> orZero (marginTop (fixed_dom 20 (Some 8) None) ()) = 8
      \<and> orZero (marginBottom (fixed_dom 20 (Some 8) None) ()) = 0"
    by (simp add: fixed_dom_def orZero_def)
  have d: "marginTop (fixed_dom 20 (Some 8) None) () = Some 8
      \<and> marginBottom (fixed_dom 20 (Some 8) None) () = None"
    by (simp add: fixed_dom_def)
  show ?thesis
    using measureBlock_fallback [of bare_dom "js ''   ''" "Some []"]
      measureBlock_fallback [of "fixed_dom 20 (Some 8) None" "js ''<p>a</p>''" "Some []"] a b c d
    by (simp add: orZero_def js_number_eval)
qed

text \<open>
  C7, as stated, fails: a block whose computed top margin is \<open>-100\<close> and whose box
  is 20 high measures \<open>-80\<close>.
\<close>

theorem measureBlock_nonneg_counterexample:
  "measured (fixed_dom 20 (Some (- 100)) (Some 0)) (Some [])
     (js ''<p style=margin-top:-100px>x</p>'') = - 80
   \<and> measured (fixed_dom 20 (Some (- 100)) (Some 0)) (Some [])
     (js ''<p style=margin-top:-100px>x</p>'') < 0"
  by (simp add: measured_def measureBlock_def fixed_dom_def orZero_def js_number_eval)

subsection \<open>Hard breaks separate pages\<close>

lemma pageIndexOf_Some:
  "j < length (pagesContent ps) \<Longrightarrow>
   \<exists>i. pageIndexOf ps j = Some i \<and> i < length ps \<and> pagesContent ps ! j \<in> set (blocks (ps ! i))"
proof (induction ps arbitrary: j)
  case Nil
  then show ?case by (simp add: pagesContent_def)
next
  case (Cons p ps)
  show ?case
  proof (cases "j < length (blocks p)")
    case True
    then show ?thesis
      by (simp add: pagesContent_def nth_append)
  next
    case False
    then have "j - length (blocks p) < length (pagesContent ps)"
      using Cons.prems by (simp add: pagesContent_def)
    from Cons.IH [OF this] obtain i where
      "pageIndexOf ps (j - length (blocks p)) = Some i" "i < length ps"
      "pagesContent ps ! (j - length (blocks p)) \<in> set (blocks (ps ! i))"
      by blast
    then show ?thesis
      using False by (simp add: pagesContent_def nth_append)
  qed
qed

lemma pageIndexOf_append_left:
  "j < length (pagesContent A) \<Longrightarrow> pageIndexOf (A @ B) j = pageIndexOf A j"
proof (induction A arbitrary: j)
  case Nil
  then show ?case by (simp add: pagesContent_def)
next
  case (Cons p A)
  then show ?case
    by (simp add: pagesContent_def)
qed

lemma pageIndexOf_append_right:
  "length (pagesContent A) \<le> j \<Longrightarrow>
   pageIndexOf (A @ B) j = map_option (\<lambda>i. length A + i) (pageIndexOf B (j - length (pagesContent A)))"
proof (induction A arbitrary: j)
  case Nil
  then show ?case by (simp add: pagesContent_def option.map_ident)
next
  case (Cons p A)
  then show ?case
    by (simp add: pagesContent_def option.map_comp comp_def)
qed

lemma step_result_prefix:
  assumes "\<exists>ext. fst st = A @ ext"
  shows "\<exists>ext. fst (paginate_step env C st b) = A @ ext"
proof -
  obtain res cur h r where st: "st = (res, cur, h, r)"
    by (cases st) auto
  obtain ext where ext: "res = A @ ext"
    using assms by (auto simp add: st)
  show ?thesis
    unfolding st
    by (rule step_cases [where b = b and env = env and C = C and res = res and cur = cur
          and h = h and r = r])
       (simp_all add: ext)
qed

lemma loop_result_prefix:
  "\<exists>ext. fst (paginate_loop env C bs (A, cur, h, r)) = A @ ext"
  by (rule loop_invariant) (simp, rule step_result_prefix)

lemma paginateWith_split:
  assumes hb: "isHardPageBreak b"
  shows "\<exists>A B. fst (paginateWith env C (xs @ b # ys) r) = A @ B
           \<and> pagesContent A = filter (\<lambda>x. \<not> isHardPageBreak x) xs
           \<and> pagesContent B = filter (\<lambda>x. \<not> isHardPageBreak x) ys"
proof -
  obtain res cur h r' where
    pre: "paginate_loop env C xs ([], \<lparr>blocks = []\<rparr>, 0, r) = (res, cur, h, r')"
    by (cases "paginate_loop env C xs ([], \<lparr>blocks = []\<rparr>, 0, r)") auto
  define A where "A = res @ [cur]"
  have A: "pagesContent A = filter (\<lambda>x. \<not> isHardPageBreak x) xs"
    using stateContent_loop [of env C xs "([], \<lparr>blocks = []\<rparr>, 0, r)"]
    by (simp add: pre stateContent_def pagesContent_def A_def)
  obtain res2 cur2 h2 r2 where
    post: "paginate_loop env C ys (A, \<lparr>blocks = []\<rparr>, 0, r') = (res2, cur2, h2, r2)"
    by (cases "paginate_loop env C ys (A, \<lparr>blocks = []\<rparr>, 0, r')") auto
  have whole: "paginate_loop env C (xs @ b # ys) ([], \<lparr>blocks = []\<rparr>, 0, r)
      = (res2, cur2, h2, r2)"
    using step_hard [OF hb, of env C res cur h r']
    by (simp add: loop_append pre post [unfolded A_def])
  obtain ext where ext: "res2 = A @ ext"
    using loop_result_prefix [of env C ys A "\<lparr>blocks = []\<rparr>" 0 r'] by (auto simp add: post)
  have "\<exists>B. fst (paginateWith env C (xs @ b # ys) r) = A @ B"
    by (simp add: paginateWith_def whole ext)
  then obtain B where B: "fst (paginateWith env C (xs @ b # ys) r) = A @ B"
    by blast
  have "pagesContent (A @ B) = filter (\<lambda>x. \<not> isHardPageBreak x) (xs @ b # ys)"
    using paginateWith_content [of env C "xs @ b # ys" r] by (simp add: B)
  then have "pagesContent B = filter (\<lambda>x. \<not> isHardPageBreak x) ys"
    using A hb by (simp add: pagesContent_def)
  then show ?thesis
    using A B by blast
qed

text \<open>
  C3. When a hard break lies between two content blocks \<open>b1\<close> and \<open>b2\<close> of the
  input, the page holding that occurrence of \<open>b1\<close> has a strictly smaller index than
  the page holding that occurrence of \<open>b2\<close>; the occurrences are identified by their
  positions \<open>j1\<close> and \<open>j2\<close> among the content blocks. The hard break itself is on
  no page.
\<close>

theorem hard_break_separates:
  assumes hb: "isHardPageBreak hb"
    and b1: "\<not> isHardPageBreak b1" and b2: "\<not> isHardPageBreak b2"
    and pages: "pages = fst (paginate env (xs @ b1 # ys @ hb # zs @ b2 # ws) r)"
    and j1: "j1 = length (filter (\<lambda>x. \<not> isHardPageBreak x) xs)"
    and j2: "j2 = length (filter (\<lambda>x. \<not> isHardPageBreak x) (xs @ b1 # ys @ hb # zs))"
  shows "(\<exists>i1 i2. pageIndexOf pages j1 = Some i1 \<and> pageIndexOf pages j2 = Some i2
            \<and> i1 < i2 \<and> i2 < length pages
            \<and> b1 \<in> set (blocks (pages ! i1)) \<and> b2 \<in> set (blocks (pages ! i2)))
         \<and> (\<forall>p \<in> set pages. hb \<notin> set (blocks p))"
proof -
  let ?keep = "filter (\<lambda>x. \<not> isHardPageBreak x)"
  have bs: "xs @ b1 # ys @ hb # zs @ b2 # ws = (xs @ b1 # ys) @ hb # (zs @ b2 # ws)"
    by simp
  obtain A B where AB: "pages = A @ B"
    and A: "pagesContent A = ?keep (xs @ b1 # ys)"
    and B: "pagesContent B = ?keep (zs @ b2 # ws)"
    using paginateWith_split [OF hb, of env PAGE_BODY_HEIGHT "xs @ b1 # ys" "zs @ b2 # ws" r]
    unfolding pages paginate_def bs by blast
  have content: "pagesContent pages = ?keep (xs @ b1 # ys) @ ?keep (zs @ b2 # ws)"
    using A B by (simp add: AB pagesContent_def)
  have lt1: "j1 < length (pagesContent A)"
    using b1 by (simp add: A j1)
  have at1: "pagesContent pages ! j1 = b1"
    using b1 by (simp add: content j1 nth_append)
  have ge2: "length (pagesContent A) \<le> j2"
    using hb by (simp add: A j2)
  have off2: "j2 - length (pagesContent A) = length (?keep zs)"
    using hb b1 by (simp add: A j2)
  have lt2: "length (?keep zs) < length (pagesContent B)"
    using b2 by (simp add: B)
  have at2: "pagesContent B ! length (?keep zs) = b2"
    using b2 by (simp add: B nth_append)
  obtain i1 where i1: "pageIndexOf A j1 = Some i1" "i1 < length A"
    using pageIndexOf_Some [OF lt1] by blast
  have p1: "pageIndexOf pages j1 = Some i1"
    using pageIndexOf_append_left [OF lt1, of B] i1 by (simp add: AB)
  obtain k where k: "pageIndexOf B (length (?keep zs)) = Some k" "k < length B"
    "pagesContent B ! length (?keep zs) \<in> set (blocks (B ! k))"
    using pageIndexOf_Some [OF lt2] by blast
  have p2: "pageIndexOf pages j2 = Some (length A + k)"
    using pageIndexOf_append_right [OF ge2, of B] k by (simp add: AB off2)
  have lt: "j1 < length (pagesContent pages)"
    using lt1 by (simp add: AB pagesContent_def)
  have in1: "b1 \<in> set (blocks (pages ! i1))"
    using pageIndexOf_Some [OF lt] p1 at1 by auto
  have in2: "b2 \<in> set (blocks (pages ! (length A + k)))"
    using k at2 by (simp add: AB nth_append)
  have order: "i1 < length A + k \<and> length A + k < length pages"
    using i1 k by (simp add: AB)
  have "\<forall>p \<in> set pages. hb \<notin> set (blocks p)"
    using page_blocks_not_hard [of _ env PAGE_BODY_HEIGHT _ r hb] hb
    unfolding pages paginate_def by blast
  then show ?thesis
    using p1 p2 in1 in2 order by blast
qed

theorem hard_break_separates_witness:
  "isHardPageBreak (js ''<div class=page-break></div>'')
   \<and> \<not> isHardPageBreak (js ''<p>a</p>'') \<and> \<not> isHardPageBreak (js ''<p>b</p>'')
   \<and> fst (paginate bare_dom
        [js ''<p>a</p>'', js ''<div class=page-break></div>'', js ''<p>b</p>''] None)
       = [\<lparr>blocks = [js ''<p>a</p>'']\<rparr>, \<lparr>blocks = [js ''<p>b</p>'']\<rparr>]
   \<and> (\<exists>i1 i2.
        pageIndexOf [\<lparr>blocks = [js ''<p>a</p>'']\<rparr>, \<lparr>blocks = [js ''<p>b</p>'']\<rparr>] 0 = Some i1
        \<and> pageIndexOf [\<lparr>blocks = [js ''<p>a</p>'']\<rparr>, \<lparr>blocks = [js ''<p>b</p>'']\<rparr>] 1 = Some i2
        \<and> i1 < i2)"
proof -
  have hb: "isHardPageBreak (js ''<div class=page-break></div>'')"
    by (simp add: isHardPageBreak_def js_def)
  have b1: "\<not> isHardPageBreak (js ''<p>a</p>'')"
    by (simp add: isHardPageBreak_def js_def)
  have b2: "\<not> isHardPageBreak (js ''<p>b</p>'')"
    by (simp add: isHardPageBreak_def js_def)
  have pages: "[\<lparr>blocks = [js ''<p>a</p>'']\<rparr>, \<lparr>blocks = [js ''<p>b</p>'']\<rparr>]
      = fst (paginate bare_dom
          ([] @ js ''<p>a</p>'' # [] @ js ''<div class=page-break></div>'' # [] @ js ''<p>b</p>'' # [])
          None)"
    by (simp add: paginate_def paginateWith_def paginate_step.simps hb b1 b2
        measureBlock_def bare_dom_def PAGE_BODY_HEIGHT_864 js_number_eval)
  have j1: "0 = length (filter (\<lambda>x. \<not> isHardPageBreak x) [])"
    by simp
  have j2: "1 = length (filter (\<lambda>x. \<not> isHardPageBreak x)
      ([] @ js ''<p>a</p>'' # [] @ js ''<div class=page-break></div>'' # []))"
    using hb b1 by simp
  from hard_break_separates [OF hb b1 b2 pages j1 j2] pages hb b1 b2
  show ?thesis
    by auto
qed

subsection \<open>Blocks of one height\<close>

lemma fits_iff_floor:
  assumes "0 < hh" and "0 \<le> C"
  shows "of_nat n * hh \<le> C \<longleftrightarrow> n \<le> nat \<lfloor>C / hh\<rfloor>"
proof -
  have "of_nat n * hh \<le> C \<longleftrightarrow> of_int (int n) \<le> C / hh"
    using assms by (simp add: pos_le_divide_eq)
  also have "\<dots> \<longleftrightarrow> int n \<le> \<lfloor>C / hh\<rfloor>"
    by (simp only: le_floor_iff)
  also have "\<dots> \<longleftrightarrow> n \<le> nat \<lfloor>C / hh\<rfloor>"
    using assms by (simp add: le_nat_iff)
  finally show ?thesis .
qed

text \<open>
  A height that is a whole multiple of \<open>2\<close> to the power \<open>e\<close> is added without
  rounding as long as the sum stays within \<open>2 ^ 53\<close> such units.
\<close>

lemma exact_running_sum:
  assumes h: "hh = of_int n * 2 powi e" and e: "- 1074 \<le> e"
    and pos: "0 < hh" and hC: "hh < C" and C: "C \<le> 2 ^ 52 * 2 powi e"
    and j: "of_nat j * hh \<le> C"
  shows "fadd (of_nat j * hh) hh = of_nat (Suc j) * hh"
proof -
  define N where "N = int (Suc j) * n"
  define B :: int where "B = 2 ^ 53"
  have p: "(0::real) < 2 powi e" by simp
  have B: "(of_int B :: real) = 2 * 2 ^ 52"
    by (simp add: B_def)
  have sum: "of_nat j * hh + hh = of_int N * 2 powi e"
    by (simp add: h N_def algebra_simps)
  have "of_int n * (2::real) powi e > 0"
    using pos h by simp
  then have "0 < n"
    using p by (simp add: zero_less_mult_iff)
  then have N0: "0 \<le> N"
    by (simp add: N_def)
  have "of_int N * 2 powi e < 2 * C"
    using j hC by (simp add: sum [symmetric])
  also have "\<dots> \<le> 2 * (2 ^ 52 * 2 powi e)"
    using C by simp
  also have "\<dots> = of_int B * 2 powi e"
    by (simp add: B)
  finally have "(of_int N :: real) < of_int B"
    using p by (simp only: mult_less_cancel_right_pos)
  then have "N < B"
    by (simp only: of_int_less_iff)
  then have "\<bar>N\<bar> < 2 ^ 53"
    using N0 by (simp add: B_def)
  then have "round64 (of_int N * 2 powi e) = of_int N * 2 powi e"
    using e by (rule round64_exact)
  then have "fadd (of_nat j * hh) hh = of_int N * 2 powi e"
    by (simp only: fadd_def sum)
  also have "\<dots> = of_nat (Suc j) * hh"
    by (simp add: sum [symmetric] algebra_simps)
  finally show ?thesis .
qed

lemma uniformInv_step:
  assumes hh: "0 < hh" "hh < C"
    and dy: "hh = of_int n * 2 powi e" "- 1074 \<le> e" "C \<le> 2 ^ 52 * 2 powi e"
    and b: "\<not> isHardPageBreak b" "measured env r b = hh"
    and inv: "uniformInv env r C hh st"
  shows "uniformInv env r C hh (paginate_step env C st b)"
proof -
  let ?k = "nat \<lfloor>C / hh\<rfloor>"
  obtain res cur h r' where st: "st = (res, cur, h, r')"
    by (cases st) auto
  have res: "\<forall>p \<in> set res. length (blocks p) = ?k"
    and cur: "length (blocks cur) \<le> ?k"
    and h: "h = of_nat (length (blocks cur)) * hh"
    and r': "r' = r \<or> r' = cleared r"
    using inv by (simp_all add: uniformInv_def st)
  have m: "measured env r' b = hh"
    using measured_ref [OF r', of env b] b by simp
  have cl: "cleared r' = r \<or> cleared r' = cleared r"
    using r' by (rule cleared_ref)
  have C: "0 \<le> C"
    using hh by simp
  have one: "1 \<le> ?k"
    using fits_iff_floor [OF hh(1) C, of 1] hh by simp
  have "of_nat (length (blocks cur)) * hh \<le> C"
    using cur by (simp only: fits_iff_floor [OF hh(1) C])
  then have sum: "fadd h hh = of_nat (Suc (length (blocks cur))) * hh"
    unfolding h by (rule exact_running_sum [OF dy(1) dy(2) hh(1) hh(2) dy(3)])
  have "fadd (of_nat 0 * hh) hh = of_nat (Suc 0) * hh"
    using C by (intro exact_running_sum [OF dy(1) dy(2) hh(1) hh(2) dy(3)]) simp
  then have first: "fadd 0 hh = of_nat (Suc 0) * hh"
    by simp
  have next_fits: "fadd h hh \<le> C \<longleftrightarrow> Suc (length (blocks cur)) \<le> ?k"
    unfolding sum by (rule fits_iff_floor [OF hh(1) C])
  show ?thesis
  proof (rule step_cases [where b = b and env = env and C = C and res = res and cur = cur
        and h = h and r = r'])
    assume "isHardPageBreak b"
    then show ?thesis
      using b by simp
  next
    assume gt: "C < fadd h (measured env r' b)"
      and eq: "paginate_step env C (res, cur, h, r') b =
        (res @ [cur], \<lparr>blocks = [b]\<rparr>, fadd 0 (measured env r' b), cleared r')"
    have "\<not> Suc (length (blocks cur)) \<le> ?k"
      using gt next_fits m by simp
    then have "length (blocks cur) = ?k"
      using cur by simp
    then have "uniformInv env r C hh
        (res @ [cur], \<lparr>blocks = [b]\<rparr>, fadd 0 (measured env r' b), cleared r')"
      using res one cl by (simp add: uniformInv_def m first)
    then show ?thesis
      by (simp only: st eq)
  next
    assume no: "\<not> (C < fadd h (measured env r' b) \<and> blocks cur \<noteq> [])"
      and eq: "paginate_step env C (res, cur, h, r') b =
        (res, cur\<lparr>blocks := blocks cur @ [b]\<rparr>, fadd h (measured env r' b), cleared r')"
    have "Suc (length (blocks cur)) \<le> ?k"
    proof (cases "blocks cur = []")
      case True
      then show ?thesis using one by simp
    next
      case False
      then have "fadd h hh \<le> C"
        using no m by simp
      then show ?thesis
        using next_fits by simp
    qed
    then have "uniformInv env r C hh
        (res, cur\<lparr>blocks := blocks cur @ [b]\<rparr>, fadd h (measured env r' b), cleared r')"
      using res cl by (simp add: uniformInv_def m sum)
    then show ?thesis
      by (simp only: st eq)
  qed
qed

lemma paginateWith_uniform:
  assumes bs: "\<forall>b \<in> set bs. \<not> isHardPageBreak b \<and> measured env r b = hh"
    and hh: "0 < hh" "hh < C"
    and dy: "hh = of_int n * 2 powi e" "- 1074 \<le> e" "C \<le> 2 ^ 52 * 2 powi e"
  shows "(\<forall>i. Suc i < length (fst (paginateWith env C bs r)) \<longrightarrow>
            length (blocks (fst (paginateWith env C bs r) ! i)) = nat \<lfloor>C / hh\<rfloor>)
         \<and> length (blocks (last (fst (paginateWith env C bs r)))) \<le> nat \<lfloor>C / hh\<rfloor>"
proof (cases "bs = []")
  case True
  then show ?thesis by (simp add: paginateWith_def)
next
  case False
  let ?k = "nat \<lfloor>C / hh\<rfloor>"
  obtain res cur h r' where
    loop: "paginate_loop env C bs ([], \<lparr>blocks = []\<rparr>, 0, r) = (res, cur, h, r')"
    by (cases "paginate_loop env C bs ([], \<lparr>blocks = []\<rparr>, 0, r)") auto
  have "uniformInv env r C hh ([], \<lparr>blocks = []\<rparr>, 0, r)"
    by (simp add: uniformInv_def)
  then have "uniformInv env r C hh (paginate_loop env C bs ([], \<lparr>blocks = []\<rparr>, 0, r))"
  proof (rule loop_invariant)
    fix s b
    assume "uniformInv env r C hh s" and "b \<in> set bs"
    then show "uniformInv env r C hh (paginate_step env C s b)"
      using bs by (intro uniformInv_step [OF hh dy]) simp_all
  qed
  then have res: "\<forall>p \<in> set res. length (blocks p) = ?k" and cur: "length (blocks cur) \<le> ?k"
    by (simp_all add: loop uniformInv_def)
  show ?thesis
  proof (cases "0 < length (blocks cur) \<or> length res = 0")
    case True
    then have pages: "fst (paginateWith env C bs r) = res @ [cur]"
      using False by (simp add: paginateWith_def loop)
    show ?thesis
      unfolding pages using res cur by (auto simp add: nth_append)
  next
    case no: False
    then have pages: "fst (paginateWith env C bs r) = res"
      using False by (simp add: paginateWith_def loop)
    have "res \<noteq> []"
      using no by simp
    then have "last res \<in> set res"
      by simp
    then show ?thesis
      unfolding pages using res by auto
  qed
qed

text \<open>
  C6, as the code has it. Let the content blocks all measure \<open>h\<close> with \<open>0 < h < C\<close>,
  where \<open>h\<close> is a whole multiple of a power of two \<open>2\<close> to the \<open>e\<close> (\<open>e\<close> at least
  \<open>-1074\<close>) and \<open>C\<close> is at most \<open>2 ^ 52\<close> such units, as for whole pixels or sixty-fourths
  of a pixel: the running sums are then exact. Every page but the last holds exactly
  \<open>\<lfloor>C / h\<rfloor>\<close> blocks and the last page at most that many. The capacity of \<open>paginate\<close>
  is 864, so blocks of height 40 come 21 to a page.
\<close>

theorem uniform_blocks_per_page:
  assumes "\<forall>b \<in> set bs. \<not> isHardPageBreak b \<and> measured env r b = h"
    and "0 < h" and "h < C"
    and "h = of_int n * 2 powi e" and "- 1074 \<le> e" and "C \<le> 2 ^ 52 * 2 powi e"
    and "pages = fst (paginateWith env C bs r)"
  shows "(\<forall>i. Suc i < length pages \<longrightarrow> length (blocks (pages ! i)) = nat \<lfloor>C / h\<rfloor>)
         \<and> length (blocks (last pages)) \<le> nat \<lfloor>C / h\<rfloor>
         \<and> nat \<lfloor>PAGE_BODY_HEIGHT / 40\<rfloor> = 21
         \<and> paginate env bs r = paginateWith env 864 bs r"
proof -
  have "nat \<lfloor>PAGE_BODY_HEIGHT / 40\<rfloor> = 21"
    by (simp add: PAGE_BODY_HEIGHT_864)
  moreover have "paginate env bs r = paginateWith env 864 bs r"
    by (simp add: paginate_def PAGE_BODY_HEIGHT_864)
  ultimately show ?thesis
    using paginateWith_uniform [OF assms(1-6)] assms(7) by simp
qed

theorem uniform_blocks_per_page_witness:
  "\<not> isHardPageBreak (js ''<p>a</p>'') \<and> measured bare_dom None (js ''<p>a</p>'') = 40
   \<and> (0::real) < 40 \<and> (40::real) < 864
   \<and> (40::real) = of_int 40 * 2 powi 0 \<and> (- 1074::int) \<le> 0 \<and> (864::real) \<le> 2 ^ 52 * 2 powi 0
   \<and> length (fst (paginateWith bare_dom 864 (replicate 22 (js ''<p>a</p>'')) None)) = 2
   \<and> length (blocks (fst (paginateWith bare_dom 864 (replicate 22 (js ''<p>a</p>'')) None) ! 0)) = 21"
proof -
  have nb: "\<not> isHardPageBreak (js ''<p>a</p>'')"
    by (simp add: isHardPageBreak_def js_def)
  have m: "measureBlock bare_dom None (js ''<p>a</p>'') = (40, None)"
    by (simp add: measureBlock_def)
  have hyp: "\<forall>b \<in> set (replicate 22 (js ''<p>a</p>'')).
      \<not> isHardPageBreak b \<and> measured bare_dom None b = 40"
    using nb m by (simp add: measured_def)
  have len: "length (fst (paginateWith bare_dom 864 (replicate 22 (js ''<p>a</p>'')) None)) = 2"
    by (simp add: paginateWith_def paginate_step.simps nb m eval_nat_numeral js_number_eval)
  have h1: "(0::real) < 40" and h2: "(40::real) < 864"
    and h3: "(40::real) = of_int 40 * 2 powi 0" and h4: "(- 1074::int) \<le> 0"
    and h5: "(864::real) \<le> 2 ^ 52 * 2 powi 0"
    by simp_all
  from uniform_blocks_per_page [OF hyp h1 h2 h3 h4 h5 refl] len nb m show ?thesis
    by (simp add: measured_def)
qed

text \<open>
  C6, as stated, fails: six blocks measuring the double nearest to 172.8, which is
  between 0 and 864, are laid out five to the first page, while 864 divided by that
  height and rounded down is 4.
\<close>

theorem uniform_blocks_per_page_counterexample:
  "\<not> isHardPageBreak (js ''<p>a</p>'')
   \<and> measured (fixed_dom 172 (Some (4 / 5)) None) (Some []) (js ''<p>a</p>'')
       = 3039929748475085 / 17592186044416
   \<and> (0::real) < 3039929748475085 / 17592186044416
   \<and> (3039929748475085 / 17592186044416 :: real) < PAGE_BODY_HEIGHT
   \<and> length (fst (paginate (fixed_dom 172 (Some (4 / 5)) None)
        (replicate 6 (js ''<p>a</p>'')) (Some []))) = 2
   \<and> length (blocks (fst (paginate (fixed_dom 172 (Some (4 / 5)) None)
        (replicate 6 (js ''<p>a</p>'')) (Some [])) ! 0)) = 5
   \<and> nat \<lfloor>PAGE_BODY_HEIGHT / (3039929748475085 / 17592186044416)\<rfloor> = 4"
proof -
  have nb: "\<not> isHardPageBreak (js ''<p>a</p>'')"
    by (simp add: isHardPageBreak_def js_def)
  show ?thesis
    by (simp add: nb sample_pages measured_def sample_measureBlock PAGE_BODY_HEIGHT_864)
qed

end
